theory Spec2Isabelle
  imports Main "HOL-Library.Sublist"
begin

section \<open>Python strings\<close>

text \<open>
  A Python \<open>str\<close> is a sequence of Unicode code points; \<open>len\<close>, indexing, \<open>startswith\<close>
  and \<open>replace\<close> all count code points.  A character is therefore modelled by its code
  point (a natural number) and a string by a list of code points.
\<close>

type_synonym uchar = nat
type_synonym ustring = "uchar list"

text \<open>
  \<open>str.isspace\<close> on one character, which is also what \<open>str.strip()\<close> removes and what
  \<open>\s\<close> matches in a \<open>str\<close> pattern of the \<open>re\<close> module (CPython's
  \<open>_PyUnicode_IsWhitespace\<close>).
\<close>

definition py_isspace :: "uchar \<Rightarrow> bool" where
  "py_isspace c \<longleftrightarrow>
     (9 \<le> c \<and> c \<le> 13) \<or> (28 \<le> c \<and> c \<le> 32) \<or> c = 133 \<or> c = 160 \<or> c = 5760 \<or>
     (8192 \<le> c \<and> c \<le> 8202) \<or> c = 8232 \<or> c = 8233 \<or> c = 8239 \<or> c = 8287 \<or> c = 12288"

text \<open>\<open>s.strip()\<close>: whitespace removed at both ends.\<close>

definition strip_ws :: "ustring \<Rightarrow> ustring" where
  "strip_ws s = rev (dropWhile py_isspace (rev (dropWhile py_isspace s)))"

text \<open>\<open>s.strip(chars)\<close>: the characters of \<open>chars\<close> removed at both ends.\<close>

definition strip_chars :: "ustring \<Rightarrow> ustring \<Rightarrow> ustring" where
  "strip_chars chars s =
     rev (dropWhile (\<lambda>c. c \<in> set chars) (rev (dropWhile (\<lambda>c. c \<in> set chars) s)))"

text \<open>
  \<open>s.replace(old, new)\<close>: the occurrences of \<open>old\<close> are found from left to right without
  overlap.  With an empty \<open>old\<close> Python puts \<open>new\<close> before every character and at the end.
\<close>

function str_replace :: "ustring \<Rightarrow> ustring \<Rightarrow> ustring \<Rightarrow> ustring" where
  "str_replace old new [] = (if old = [] then new else [])"
| "str_replace old new (c # cs) =
     (if old = [] then new @ c # str_replace old new cs
      else if prefix old (c # cs) then new @ str_replace old new (drop (length old) (c # cs))
      else c # str_replace old new cs)"
  by pat_completeness auto
termination
  by (relation "measure (\<lambda>(old, new, s). length s)") auto

text \<open>\<open>s.startswith(k, i)\<close> for \<open>0 \<le> i\<close>: \<open>k\<close> is a prefix of \<open>s[i:]\<close>.\<close>

definition startswith :: "ustring \<Rightarrow> ustring \<Rightarrow> nat \<Rightarrow> bool" where
  "startswith s k i = prefix k (drop i s)"

section \<open>The tokenizer (tts-kokoro-esp.py)\<close>

text \<open>
  The vocabulary is a Python \<open>dict\<close> from symbol to id.  A \<open>dict\<close> keeps insertion order,
  which \<open>sorted\<close> sees, so it is modelled as an association list; \<open>k in d\<close> is membership
  in the keys.
\<close>

type_synonym vocab = "(ustring \<times> nat) list"

definition dict_keys :: "vocab \<Rightarrow> ustring list" where
  "dict_keys d = map fst d"

text \<open>
  \<open>sorted(d.keys(), key=len, reverse=True)\<close>.  Python's sort is stable and \<open>reverse=True\<close>
  keeps the original order of elements with equal keys: the result is the reversal of the
  stable ascending sort of the reversed list.
\<close>

definition sorted_keys :: "vocab \<Rightarrow> ustring list" where
  "sorted_keys d = rev (sort_key length (rev (dict_keys d)))"

text \<open>The \<open>while i < n\<close> loop of \<open>tokenize_ipa\<close>, with its state \<open>i\<close>, \<open>tokens\<close>, \<open>unknown\<close>.
  The inner \<open>for k in keys\<close> with its \<open>break\<close> is the first key of the list that is non-empty
  and matches at \<open>i\<close>.\<close>

function tokenize_loop ::
  "ustring list \<Rightarrow> ustring \<Rightarrow> nat \<Rightarrow> ustring list \<Rightarrow> uchar list \<Rightarrow> ustring list \<times> uchar list"
where
  "tokenize_loop keys s i tokens unknown =
     (if i < length s then
        (case find (\<lambda>k. k \<noteq> [] \<and> startswith s k i) keys of
           Some k \<Rightarrow> tokenize_loop keys s (i + length k) (tokens @ [k]) unknown
         | None \<Rightarrow> tokenize_loop keys s (i + 1) tokens (unknown @ [s ! i]))
      else (tokens, unknown))"
  by pat_completeness auto
termination
proof (relation "measure (\<lambda>(keys, s, i, tokens, unknown). length s - i)")
  show "wf (measure (\<lambda>(keys, s, i, tokens, unknown). length s - i))"
    by simp
next
  fix keys :: "ustring list" and s :: ustring and i :: nat
    and tokens :: "ustring list" and unknown :: "uchar list" and k :: ustring
  assume lt: "i < length s"
    and fd: "find (\<lambda>k. k \<noteq> [] \<and> startswith s k i) keys = Some k"
  from fd have "k \<noteq> []"
    by (auto simp: find_Some_iff)
  with lt show "((keys, s, i + length k, tokens @ [k], unknown), (keys, s, i, tokens, unknown))
      \<in> measure (\<lambda>(keys, s, i, tokens, unknown). length s - i)"
    by (cases k) auto
next
  fix keys :: "ustring list" and s :: ustring and i :: nat
    and tokens :: "ustring list" and unknown :: "uchar list"
  assume "i < length s"
  then show "((keys, s, i + 1, tokens, unknown @ [s ! i]), (keys, s, i, tokens, unknown))
      \<in> measure (\<lambda>(keys, s, i, tokens, unknown). length s - i)"
    by simp
qed

declare tokenize_loop.simps [simp del]

text \<open>Lines 49 to 57 of \<open>tokenize_ipa\<close>: the string the loop scans.  The stress mark is
  U+02C8 (712), the slash is 47, \<open>t\<close> is 116, the esh U+0283 (643) and the ligature U+02A7 (679).\<close>

definition preprocess :: "ustring \<Rightarrow> vocab \<Rightarrow> bool \<Rightarrow> ustring" where
  "preprocess ipa_text phoneme_to_id keep_stress_if_mapped =
     (let s = strip_chars [47] (strip_ws ipa_text);
          s = (if \<not> (keep_stress_if_mapped \<and> [712] \<in> set (dict_keys phoneme_to_id))
               then str_replace [712] [] s else s);
          s = (if [679] \<in> set (dict_keys phoneme_to_id) \<and> [116, 643] \<notin> set (dict_keys phoneme_to_id)
               then str_replace [116, 643] [679] s else s)
      in s)"

definition tokenize_ipa :: "ustring \<Rightarrow> vocab \<Rightarrow> bool \<Rightarrow> ustring list \<times> uchar list" where
  "tokenize_ipa ipa_text phoneme_to_id keep_stress_if_mapped =
     tokenize_loop (sorted_keys phoneme_to_id)
       (preprocess ipa_text phoneme_to_id keep_stress_if_mapped) 0 [] []"

text \<open>
  The function returns the matched tokens and the unmapped characters as two lists, which
  forgets how they were interleaved.  The trace of the same loop keeps the order: one
  event for each iteration, a matched key or an unmapped character.
\<close>

datatype event = Tok ustring | Unk uchar

fun event_text :: "event \<Rightarrow> ustring" where
  "event_text (Tok k) = k"
| "event_text (Unk c) = [c]"

fun tokens_of :: "event list \<Rightarrow> ustring list" where
  "tokens_of [] = []"
| "tokens_of (Tok k # es) = k # tokens_of es"
| "tokens_of (Unk c # es) = tokens_of es"

fun unknown_of :: "event list \<Rightarrow> uchar list" where
  "unknown_of [] = []"
| "unknown_of (Tok k # es) = unknown_of es"
| "unknown_of (Unk c # es) = c # unknown_of es"

function scan_events :: "ustring list \<Rightarrow> ustring \<Rightarrow> nat \<Rightarrow> event list" where
  "scan_events keys s i =
     (if i < length s then
        (case find (\<lambda>k. k \<noteq> [] \<and> startswith s k i) keys of
           Some k \<Rightarrow> Tok k # scan_events keys s (i + length k)
         | None \<Rightarrow> Unk (s ! i) # scan_events keys s (i + 1))
      else [])"
  by pat_completeness auto
termination
proof (relation "measure (\<lambda>(keys, s, i). length s - i)")
  show "wf (measure (\<lambda>(keys, s, i). length s - i))"
    by simp
next
  fix keys :: "ustring list" and s :: ustring and i :: nat and k :: ustring
  assume lt: "i < length s"
    and fd: "find (\<lambda>k. k \<noteq> [] \<and> startswith s k i) keys = Some k"
  from fd have "k \<noteq> []"
    by (auto simp: find_Some_iff)
  with lt show "((keys, s, i + length k), (keys, s, i)) \<in> measure (\<lambda>(keys, s, i). length s - i)"
    by (cases k) auto
next
  fix keys :: "ustring list" and s :: ustring and i :: nat
  assume "i < length s"
  then show "((keys, s, i + 1), (keys, s, i)) \<in> measure (\<lambda>(keys, s, i). length s - i)"
    by simp
qed

declare scan_events.simps [simp del]

text \<open>
  \<open>get_phoneme_map\<close>: the hard-coded vocabulary, in the order of the source.  Every key is
  one character, written here by its code point (59 is the semicolon, 32 the space, 712 the
  stress mark U+02C8, 679 the ligature U+02A7).
\<close>

definition get_phoneme_map :: vocab where
  "get_phoneme_map =
   [
    ([59], 1), ([58], 2), ([44], 3), ([46], 4), ([33], 5), ([63], 6), ([8212], 9),
    ([8230], 10), ([34], 11), ([40], 12), ([41], 13), ([8220], 14), ([8221], 15),
    ([32], 16), ([771], 17), ([675], 18), ([677], 19), ([678], 20), ([680], 21),
    ([7517], 22), ([43879], 23), ([65], 24), ([73], 25), ([79], 31), ([81], 33),
    ([83], 35), ([84], 36), ([87], 39), ([89], 41), ([7498], 42), ([97], 43), ([98], 44),
    ([99], 45), ([100], 46), ([101], 47), ([102], 48), ([104], 50), ([105], 51),
    ([106], 52), ([107], 53), ([108], 54), ([109], 55), ([110], 56), ([111], 57),
    ([112], 58), ([113], 59), ([114], 60), ([115], 61), ([116], 62), ([117], 63),
    ([118], 64), ([119], 65), ([120], 66), ([121], 67), ([122], 68), ([593], 69),
    ([592], 70), ([594], 71), ([230], 72), ([946], 75), ([596], 76), ([597], 77),
    ([231], 78), ([598], 80), ([240], 81), ([676], 82), ([601], 83), ([602], 85),
    ([603], 86), ([604], 87), ([607], 90), ([103], 92), ([613], 99), ([616], 101),
    ([618], 102), ([669], 103), ([623], 110), ([624], 111), ([331], 112), ([627], 113),
    ([626], 114), ([628], 115), ([248], 116), ([632], 118), ([952], 119), ([339], 120),
    ([633], 123), ([638], 125), ([635], 126), ([641], 128), ([637], 129), ([642], 130),
    ([643], 131), ([648], 132), ([679], 133), ([650], 135), ([651], 136), ([652], 138),
    ([611], 139), ([612], 140), ([967], 142), ([654], 143), ([658], 147), ([660], 148),
    ([712], 156), ([716], 157), ([720], 158), ([688], 162), ([690], 164), ([8595], 169),
    ([8594], 171), ([8599], 172), ([8600], 173), ([7547], 177)
   ]"



section \<open>Regular expressions of the \<open>re\<close> module, as far as g2p\_lib.py uses them\<close>

text \<open>
  Every pattern of the source is a short sequence of character classes, possibly with a
  one-character lookbehind, a lookahead, or the anchors \<open>^\<close> and \<open>$\<close>, or it is a greedy
  run \<open>[...]+\<close>.  A pattern is modelled by its matcher: given the character just before the
  current position of the subject (\<open>None\<close> at the start) and the rest of the subject from
  the current position, the matcher returns the length of the match that starts here, and
  0 when there is none.  No pattern of the source matches the empty string.
\<close>

type_synonym matcher = "uchar option \<Rightarrow> ustring \<Rightarrow> nat"

text \<open>The rest of the subject begins with one character of each class, in order.\<close>

fun looking_at :: "ustring list \<Rightarrow> ustring \<Rightarrow> bool" where
  "looking_at [] s = True"
| "looking_at (cls # rest) [] = False"
| "looking_at (cls # rest) (c # cs) = (c \<in> set cls \<and> looking_at rest cs)"

text \<open>A sequence of classes that is consumed, followed by a lookahead \<open>(?=...)\<close>; a literal
  character is a class of one.\<close>

definition m_seq :: "ustring list \<Rightarrow> ustring list \<Rightarrow> matcher" where
  "m_seq consume ahead prev s = (if looking_at (consume @ ahead) s then length consume else 0)"

text \<open>A sequence of classes followed by \<open>$\<close>, which matches at the end of the subject and
  just before a newline that ends it.\<close>

definition m_seq_end :: "ustring list \<Rightarrow> matcher" where
  "m_seq_end consume prev s =
     (if looking_at consume s \<and> (drop (length consume) s = [] \<or> drop (length consume) s = [10])
      then length consume else 0)"

text \<open>\<open>^\<close> before a pattern, and the lookbehinds \<open>(?<=[...])\<close> and \<open>(?<=[^...])\<close>.\<close>

definition at_start :: "matcher \<Rightarrow> matcher" where
  "at_start m prev s = (if prev = None then m prev s else 0)"

definition after_class :: "ustring \<Rightarrow> matcher \<Rightarrow> matcher" where
  "after_class cls m prev s =
     (case prev of None \<Rightarrow> 0 | Some p \<Rightarrow> if p \<in> set cls then m prev s else 0)"

definition after_not_class :: "ustring \<Rightarrow> matcher \<Rightarrow> matcher" where
  "after_not_class cls m prev s =
     (case prev of None \<Rightarrow> 0 | Some p \<Rightarrow> if p \<notin> set cls then m prev s else 0)"

text \<open>The greedy runs \<open>\s+\<close> and \<open>[...]+\<close>.\<close>

definition m_plus :: "(uchar \<Rightarrow> bool) \<Rightarrow> matcher" where
  "m_plus P prev s = length (takeWhile P s)"

text \<open>
  \<open>re.sub(pattern, repl, s)\<close>: the subject is scanned from left to right; where the pattern
  matches, the replacement (a function of the matched text, for \<open>\1\<close>) is emitted and the
  scan goes on after the match; elsewhere the character is copied.  Lookbehinds see the
  subject, not the output.
\<close>

function re_sub :: "matcher \<Rightarrow> (ustring \<Rightarrow> ustring) \<Rightarrow> uchar option \<Rightarrow> ustring \<Rightarrow> ustring" where
  "re_sub m repl prev [] = []"
| "re_sub m repl prev (c # cs) =
     (let n = min (m prev (c # cs)) (length (c # cs)) in
      if n = 0 then c # re_sub m repl (Some c) cs
      else repl (take n (c # cs)) @
           re_sub m repl (Some (last (take n (c # cs)))) (drop n (c # cs)))"
  by pat_completeness auto
termination
  by (relation "measure (\<lambda>(m, repl, prev, s). length s)") auto

text \<open>\<open>re.finditer(pattern, s)\<close>: the spans \<open>(start, end)\<close> of the matches, from position \<open>i\<close> on.\<close>

function re_finditer :: "matcher \<Rightarrow> nat \<Rightarrow> uchar option \<Rightarrow> ustring \<Rightarrow> (nat \<times> nat) list" where
  "re_finditer m i prev [] = []"
| "re_finditer m i prev (c # cs) =
     (let n = min (m prev (c # cs)) (length (c # cs)) in
      if n = 0 then re_finditer m (i + 1) (Some c) cs
      else (i, i + n) #
           re_finditer m (i + n) (Some (last (take n (c # cs)))) (drop n (c # cs)))"
  by pat_completeness auto
termination
  by (relation "measure (\<lambda>(m, i, prev, s). length s)") auto

text \<open>\<open>re.search(pattern, s)\<close>: the span of the first match, if any.\<close>

definition re_search :: "matcher \<Rightarrow> ustring \<Rightarrow> (nat \<times> nat) option" where
  "re_search m s = (case re_finditer m 0 None s of [] \<Rightarrow> None | sp # _ \<Rightarrow> Some sp)"

section \<open>Grapheme to phoneme (g2p\_lib.py)\<close>

text \<open>
  The Unicode tables of the Python runtime are not part of the repository:
  \<open>unicodedata.normalize('NFC', _)\<close> and \<open>str.lower\<close> are parameters \<open>nfc\<close> and \<open>lower\<close> of
  the model, and what is proved holds for whatever functions they are.  On ASCII text
  NFC changes nothing and \<open>lower\<close> maps \<open>A..Z\<close> to \<open>a..z\<close>; these two instances are used
  where a concrete ASCII input is evaluated.
\<close>

definition nfc_ascii :: "ustring \<Rightarrow> ustring" where
  "nfc_ascii text = text"

definition lower_ascii :: "ustring \<Rightarrow> ustring" where
  "lower_ascii w = map (\<lambda>c. if 65 \<le> c \<and> c \<le> 90 then c + 32 else c) w"

text \<open>\<open>str.isalpha\<close> on one ASCII character.\<close>

definition isalpha_ascii :: "uchar \<Rightarrow> bool" where
  "isalpha_ascii c \<longleftrightarrow> (65 \<le> c \<and> c \<le> 90) \<or> (97 \<le> c \<and> c \<le> 122)"

datatype py_error = KeyError | IndexError

subsection \<open>Configuration and character classes\<close>

definition NASAL_ASSIMILATION :: bool where
  "NASAL_ASSIMILATION = False"

definition GLIDE_MODE :: string where
  "GLIDE_MODE = ''safe''"

text \<open>\<open>aeiou\<close> and the same with the acute accent, U+00E1, E9, ED, F3, FA.\<close>

definition VOWELS :: ustring where
  "VOWELS = [97, 101, 105, 111, 117]"

definition VOWELS_ACCENTED :: ustring where
  "VOWELS_ACCENTED = [225, 233, 237, 243, 250]"

definition ALL_VOWELS :: ustring where
  "ALL_VOWELS = VOWELS @ VOWELS_ACCENTED"

text \<open>\<open>str.maketrans(VOWELS_ACCENTED, VOWELS)\<close> and the dictionary \<open>ACCENT_VOWEL_MAP\<close>.\<close>

definition ACUTE_MAP :: "(uchar \<times> uchar) list" where
  "ACUTE_MAP = zip VOWELS_ACCENTED VOWELS"

definition ACCENT_VOWEL_MAP :: "(uchar \<times> uchar) list" where
  "ACCENT_VOWEL_MAP = [(97, 225), (101, 233), (105, 237), (111, 243), (117, 250)]"

text \<open>
  The punctuation \<open>, . ; : ! ? ( ) [ ] { } "\<close> with the inverted marks U+00A1 and U+00BF,
  the guillemets U+00AB and U+00BB, the curly quotes U+201C and U+201D, the dashes U+2014
  and U+2013 and the ellipsis U+2026, in the order of the source.  \<open>_PUNCT_RE\<close> is the
  character class of exactly these characters.
\<close>

definition PUNCT_CHARS :: ustring where
  "PUNCT_CHARS = [44, 46, 59, 58, 161, 33, 191, 63, 40, 41, 91, 93, 123, 125, 34,
                  171, 187, 8220, 8221, 8212, 8211, 8230]"

definition PUNCT_SET :: "uchar set" where
  "PUNCT_SET = set PUNCT_CHARS"

subsection \<open>Utilities\<close>

text \<open>\<open>_space_punct\<close>: spaces around punctuation, the literal ellipsis split, whitespace
  collapsed and stripped.  The replacement of the ellipsis is \<open>' . . . '\<close>.\<close>

definition space_punct :: "ustring \<Rightarrow> ustring" where
  "space_punct text =
     (let text = re_sub (m_seq [PUNCT_CHARS] []) (\<lambda>g. [32] @ g @ [32]) None text;
          text = re_sub (m_seq [[46], [46], [46]] []) (\<lambda>g. [32, 46, 32, 46, 32, 46, 32]) None text
      in strip_ws (re_sub (m_plus py_isspace) (\<lambda>g. [32]) None text))"

definition normalize_word :: "(ustring \<Rightarrow> ustring) \<Rightarrow> ustring \<Rightarrow> ustring" where
  "normalize_word lower word = lower word"

text \<open>\<open>s.translate(ACUTE_MAP)\<close>: a character of the table is replaced, any other is kept.\<close>

definition strip_accents :: "ustring \<Rightarrow> ustring" where
  "strip_accents s = map (\<lambda>c. case map_of ACUTE_MAP c of Some b \<Rightarrow> b | None \<Rightarrow> c) s"

text \<open>\<open>text.split(" ")\<close> and \<open>" ".join(out)\<close>.\<close>

fun split_sep :: "uchar \<Rightarrow> ustring \<Rightarrow> ustring list" where
  "split_sep sep [] = [[]]"
| "split_sep sep (c # cs) =
     (if c = sep then [] # split_sep sep cs
      else (case split_sep sep cs of [] \<Rightarrow> [[c]] | w # ws \<Rightarrow> (c # w) # ws))"

fun join :: "ustring \<Rightarrow> ustring list \<Rightarrow> ustring" where
  "join sep [] = []"
| "join sep [x] = x"
| "join sep (x # y # ys) = x @ sep @ join sep (y # ys)"

text \<open>\<open>s[a:b]\<close> for \<open>0 \<le> a\<close> and \<open>0 \<le> b\<close>.\<close>

definition slice :: "nat \<Rightarrow> nat \<Rightarrow> ustring \<Rightarrow> ustring" where
  "slice a b s = take (b - a) (drop a s)"

subsection \<open>Core mapping\<close>

text \<open>
  \<open>map_graphemes\<close> is a chain of rewrites of the variable \<open>w\<close>; each group of lines of the
  source is one definition here, named after the comment that heads it, and
  \<open>map_graphemes\<close> composes them in the order of the source.  The letters are written by
  code point: \<open>a\<close> 97, \<open>b\<close> 98, \<open>c\<close> 99, \<open>e\<close> 101, \<open>g\<close> 103, \<open>h\<close> 104, \<open>i\<close> 105, \<open>j\<close> 106,
  \<open>k\<close> 107, \<open>l\<close> 108, \<open>n\<close> 110, \<open>o\<close> 111, \<open>q\<close> 113, \<open>r\<close> 114, \<open>s\<close> 115, \<open>u\<close> 117, \<open>v\<close> 118,
  \<open>w\<close> 119, \<open>x\<close> 120, \<open>y\<close> 121, \<open>z\<close> 122, \<open>R\<close> 82, u with diaeresis 252, n with tilde 241,
  and the phones U+014B (331), U+0272 (626), U+027E (638), U+029D (669), U+02A7 (679).
\<close>

text \<open>Optional nasal assimilation: \<open>n(?=g)\<close>, \<open>n(?=k)\<close>, \<open>n(?=qu)\<close>, \<open>n(?=c(?=[aou...]))\<close>.\<close>

definition nasal_rules :: "ustring \<Rightarrow> ustring" where
  "nasal_rules w =
     (let w = re_sub (m_seq [[110]] [[103]]) (\<lambda>g. [331]) None w;
          w = re_sub (m_seq [[110]] [[107]]) (\<lambda>g. [331]) None w;
          w = re_sub (m_seq [[110]] [[113], [117]]) (\<lambda>g. [331]) None w
      in re_sub (m_seq [[110]] [[99], [97, 111, 117, 225, 243, 250]]) (\<lambda>g. [331]) None w)"

text \<open>\<open>ch\<close> to U+02A7.\<close>

definition rule_ch :: "ustring \<Rightarrow> ustring" where
  "rule_ch w = str_replace [99, 104] [679] w"

text \<open>The x rules: initial \<open>x\<close> to \<open>s\<close>, elsewhere \<open>ks\<close>.\<close>

definition rule_x :: "ustring \<Rightarrow> ustring" where
  "rule_x w =
     (let w = (if prefix [120] w then [115] @ drop 1 w else w)
      in str_replace [120] [107, 115] w)"

text \<open>\<open>j\<close>, and \<open>g\<close> before \<open>e\<close>, \<open>i\<close> (accented or not), to the phone \<open>x\<close>.\<close>

definition rule_g_j :: "ustring \<Rightarrow> ustring" where
  "rule_g_j w =
     (let w = re_sub (m_seq [[103]] [[101, 233, 105, 237]]) (\<lambda>g. [120]) None w
      in str_replace [106] [120] w)"

text \<open>\<open>gu\<close> before \<open>e\<close>, \<open>i\<close> to \<open>g\<close>; \<open>g\<close> with u-diaeresis to \<open>gw\<close>.\<close>

definition rule_gu :: "ustring \<Rightarrow> ustring" where
  "rule_gu w =
     (let w = re_sub (m_seq [[103], [117]] [[101, 233, 105, 237]]) (\<lambda>g. [103]) None w
      in str_replace [103, 252] [103, 119] w)"

text \<open>The c, z, qu rules.\<close>

definition rule_c_z_qu :: "ustring \<Rightarrow> ustring" where
  "rule_c_z_qu w =
     (let w = re_sub (m_seq [[99]] [[101, 233, 105, 237]]) (\<lambda>g. [115]) None w;
          w = str_replace [122] [115] w;
          w = str_replace [99] [107] w
      in re_sub (m_seq [[113], [117]] [[101, 233, 105, 237]]) (\<lambda>g. [107]) None w)"

text \<open>\<open>v\<close> to \<open>b\<close>.\<close>

definition rule_v :: "ustring \<Rightarrow> ustring" where
  "rule_v w = str_replace [118] [98] w"

text \<open>\<open>hi\<close>, \<open>hu\<close> before a vowel to \<open>j\<close>, \<open>w\<close>; any other \<open>h\<close> is silent.\<close>

definition rule_h :: "ustring \<Rightarrow> ustring" where
  "rule_h w =
     (let w = re_sub (m_seq [[104], [105]] [ALL_VOWELS]) (\<lambda>g. [106]) None w;
          w = re_sub (m_seq [[104], [117]] [ALL_VOWELS]) (\<lambda>g. [119]) None w
      in str_replace [104] [] w)"

text \<open>n with tilde to U+0272.\<close>

definition rule_enye :: "ustring \<Rightarrow> ustring" where
  "rule_enye w = str_replace [241] [626] w"

text \<open>\<open>ll\<close> and \<open>y\<close> to U+029D; a final \<open>y\<close> after a vowel to the glide \<open>j\<close>.\<close>

definition rule_ll_y :: "ustring \<Rightarrow> ustring" where
  "rule_ll_y w =
     (let w = str_replace [108, 108] [669] w;
          w = re_sub (at_start (m_seq [[121]] [ALL_VOWELS])) (\<lambda>g. [669]) None w;
          w = re_sub (after_not_class ALL_VOWELS (m_seq [[121]] [ALL_VOWELS])) (\<lambda>g. [669]) None w
      in re_sub (after_class ALL_VOWELS (m_seq_end [[121]])) (\<lambda>g. [106]) None w)"

text \<open>Word-final \<open>n\<close>: kept unless \<open>NASAL_ASSIMILATION\<close>; \<open>w[:-1]\<close> drops the last character.\<close>

definition rule_final_n :: "ustring \<Rightarrow> ustring" where
  "rule_final_n w =
     (if NASAL_ASSIMILATION \<and> suffix [110] w then butlast w @ [331] else w)"

text \<open>
  \<open>r\<close>, \<open>rr\<close> and onset-\<open>r\<close> strengthening, with the placeholder \<open>RRR\<close>.  In the
  replacement of \<open>([lns])r\<close> the group \<open>\1\<close> is the first character of the match.
\<close>

definition placeholder :: ustring where
  "placeholder = [82, 82, 82]"

text \<open>The four rewrites of \<open>rule_r\<close> that are calls of \<open>replace\<close> and \<open>re.sub\<close>, by name.\<close>

abbreviation rr_pass :: "ustring \<Rightarrow> ustring" where
  "rr_pass \<equiv> str_replace [114, 114] placeholder"

abbreviation cluster_pass :: "ustring \<Rightarrow> ustring" where
  "cluster_pass \<equiv>
     re_sub (m_seq [[108, 110, 115], [114]] []) (\<lambda>g. take 1 g @ placeholder) None"

abbreviation tap_pass :: "ustring \<Rightarrow> ustring" where
  "tap_pass \<equiv> str_replace [114] [638]"

abbreviation unmark_pass :: "ustring \<Rightarrow> ustring" where
  "unmark_pass \<equiv> str_replace placeholder [114]"

definition rule_r :: "ustring \<Rightarrow> ustring" where
  "rule_r w =
     (let w = rr_pass w;
          w = (if prefix [114] w then placeholder @ drop 1 w else w);
          w = cluster_pass w;
          w = tap_pass w
      in unmark_pass w)"

text \<open>
  The rhotic rule in the words of the specification, as one pass from left to right; it is
  not taken from the source, and \<open>rule_r\<close> is compared with it.  The flag says that an
  \<open>r\<close> here is strong by its position: at the start of the string, or just after \<open>l\<close>,
  \<open>n\<close> or \<open>s\<close>.  A pair \<open>rr\<close> is one strong \<open>r\<close> (114); any other \<open>r\<close> is the tap
  U+027E (638).
\<close>

fun rhotic_spec :: "bool \<Rightarrow> ustring \<Rightarrow> ustring" where
  "rhotic_spec strong [] = []"
| "rhotic_spec strong [c] = (if c = 114 then [if strong then 114 else 638] else [c])"
| "rhotic_spec strong (c # c' # cs) =
     (if c = 114 then
        (if c' = 114 then 114 # rhotic_spec False cs
         else (if strong then 114 else 638) # rhotic_spec False (c' # cs))
      else c # rhotic_spec (c \<in> {108, 110, 115}) (c' # cs))"

text \<open>The rules between the test for the bare \<open>y\<close> and the rhotic rules, in order.\<close>

definition rules_before_r :: "ustring \<Rightarrow> ustring" where
  "rules_before_r w =
     rule_final_n (rule_ll_y (rule_enye (rule_h (rule_v (rule_c_z_qu (rule_gu (rule_g_j
       (rule_x (rule_ch w)))))))))"

definition map_graphemes :: "(ustring \<Rightarrow> ustring) \<Rightarrow> ustring \<Rightarrow> ustring" where
  "map_graphemes lower word =
     (let w = normalize_word lower word;
          w = (if NASAL_ASSIMILATION then nasal_rules w else w)
      in if w = [121] then [105]
         else rule_r (rules_before_r w))"

subsection \<open>Stress\<close>

text \<open>The \<open>for j in range(g.start(), g.end())\<close> loop of \<open>add_stress_if_needed\<close>; the lookup
  \<open>ACCENT_VOWEL_MAP[ch]\<close> raises \<open>KeyError\<close> for a missing key.\<close>

fun accent_first_plain :: "ustring \<Rightarrow> nat list \<Rightarrow> py_error + ustring" where
  "accent_first_plain phonemes [] = Inr phonemes"
| "accent_first_plain phonemes (j # js) =
     (let ch = phonemes ! j in
      if ch \<in> set VOWELS then
        (case map_of ACCENT_VOWEL_MAP ch of
           None \<Rightarrow> Inl KeyError
         | Some a \<Rightarrow> Inr (take j phonemes @ [a] @ drop (j + 1) phonemes))
      else accent_first_plain phonemes js)"

text \<open>\<open>phonemes.endswith(tuple(VOWELS)) or phonemes.endswith(('n', 's'))\<close>.\<close>

definition ends_like_penult :: "ustring \<Rightarrow> bool" where
  "ends_like_penult phonemes \<longleftrightarrow>
     (\<exists>v\<in>set VOWELS. suffix [v] phonemes) \<or> suffix [110] phonemes \<or> suffix [115] phonemes"

text \<open>\<open>list(re.finditer(f"[{ALL_VOWELS}]+", phonemes))\<close>: the spans of the vowel groups.\<close>

definition vowel_groups :: "ustring \<Rightarrow> (nat \<times> nat) list" where
  "vowel_groups phonemes = re_finditer (m_plus (\<lambda>c. c \<in> set ALL_VOWELS)) 0 None phonemes"

text \<open>\<open>target_idx\<close> is a Python integer, so the subtraction is on \<open>int\<close>; \<open>groups[target_idx]\<close>
  raises \<open>IndexError\<close> past the end.\<close>

definition add_stress_if_needed :: "ustring \<Rightarrow> py_error + ustring" where
  "add_stress_if_needed phonemes =
     (if \<exists>v\<in>set VOWELS_ACCENTED. v \<in> set phonemes then Inr phonemes
      else
        let groups = vowel_groups phonemes in
        if length groups \<le> 1 then Inr phonemes
        else
          let target_idx = int (length groups) - (if ends_like_penult phonemes then 2 else 1);
              target_idx = (if target_idx < 0 then 0 else target_idx)
          in if nat target_idx < length groups
             then let g = groups ! nat target_idx
                  in accent_first_plain phonemes [fst g..<snd g]
             else Inl IndexError)"

text \<open>
  What the specification calls a vowel group: a maximal run of vowel characters, given by
  its span.  This predicate is not taken from the source; the spans that the source
  computes are compared with it.
\<close>

definition vowel_run :: "ustring \<Rightarrow> nat \<times> nat \<Rightarrow> bool" where
  "vowel_run s g \<longleftrightarrow>
     fst g < snd g \<and> snd g \<le> length s \<and>
     (\<forall>k\<in>{fst g..<snd g}. s ! k \<in> set ALL_VOWELS) \<and>
     (0 < fst g \<longrightarrow> s ! (fst g - 1) \<notin> set ALL_VOWELS) \<and>
     (snd g < length s \<longrightarrow> s ! snd g \<notin> set ALL_VOWELS)"

definition apply_glides :: "ustring \<Rightarrow> ustring" where
  "apply_glides phonemes =
     (if GLIDE_MODE \<noteq> ''full'' then phonemes
      else
        let phonemes = re_sub (m_seq [[105]] [[97, 101, 111, 225, 233, 243]]) (\<lambda>g. [106]) None phonemes;
            phonemes = re_sub (m_seq [[117]] [[97, 101, 105, 111, 225, 233, 237, 243]]) (\<lambda>g. [119]) None phonemes;
            phonemes = re_sub (after_class [97, 101, 111, 225, 233, 243] (m_seq [[105]] [])) (\<lambda>g. [106]) None phonemes
        in re_sub (after_class [97, 101, 105, 111, 225, 233, 237, 243] (m_seq [[117]] [])) (\<lambda>g. [119]) None phonemes)"

text \<open>The stress mark is U+02C8 (712); the glides \<open>j\<close> and \<open>w\<close> are 106 and 119.\<close>

definition insert_stress_marker_and_clean :: "ustring \<Rightarrow> ustring" where
  "insert_stress_marker_and_clean phonemes =
     (case re_search (m_seq [VOWELS_ACCENTED] []) phonemes of
        None \<Rightarrow> strip_accents phonemes
      | Some m \<Rightarrow>
          let pos = fst m;
              start_pos = (if pos > 0 \<and> phonemes ! (pos - 1) \<in> set [106, 119] then pos - 1 else pos);
              base = strip_accents [phonemes ! pos];
              out = take start_pos phonemes @ [712] @ slice start_pos pos phonemes @ base @
                    drop (pos + 1) phonemes
          in strip_accents out)"

subsection \<open>Public API\<close>

text \<open>The \<open>for tok in text.split(" ")\<close> loop of \<open>g2p\<close>, with the list \<open>out\<close> it appends to.\<close>

fun g2p_loop :: "(ustring \<Rightarrow> ustring) \<Rightarrow> ustring list \<Rightarrow> ustring list \<Rightarrow> py_error + ustring list" where
  "g2p_loop lower [] out = Inr out"
| "g2p_loop lower (tok # toks) out =
     (if tok = [] then g2p_loop lower toks out
      else if set tok \<subseteq> PUNCT_SET then g2p_loop lower toks (out @ [tok])
      else
        let p1 = map_graphemes lower tok in
        (case add_stress_if_needed p1 of
           Inl e \<Rightarrow> Inl e
         | Inr p2 \<Rightarrow>
             let p3 = apply_glides p2;
                 p4 = insert_stress_marker_and_clean p3
             in g2p_loop lower toks (out @ [p4])))"

text \<open>The tokens that the loop of \<open>g2p\<close> iterates over, and \<open>g2p\<close> itself; \<open>//\<close> is 47, 47.\<close>

definition g2p_tokens :: "(ustring \<Rightarrow> ustring) \<Rightarrow> ustring \<Rightarrow> ustring list" where
  "g2p_tokens nfc text = split_sep 32 (space_punct (nfc text))"

definition g2p :: "(ustring \<Rightarrow> ustring) \<Rightarrow> (ustring \<Rightarrow> ustring) \<Rightarrow> ustring \<Rightarrow> py_error + ustring" where
  "g2p nfc lower text =
     (if text = [] then Inr [47, 47]
      else
        (case g2p_loop lower (g2p_tokens nfc text) [] of
           Inl e \<Rightarrow> Inl e
         | Inr out \<Rightarrow>
             let result = strip_ws (join [32] out)
             in Inr (if result \<noteq> [] then [47, 32] @ result @ [32, 47] else [47, 47])))"

text \<open>
  Punctuation isolation, the property the specification asks of the normalizer and of the
  transcription; it is not taken from the source.  Reading the string from left to right,
  every punctuation character must have a space or the start of the string before it and
  a space or the end of the string after it.  The flag says whether the position before
  the string counts as such a start or space.
\<close>

fun isolated :: "bool \<Rightarrow> ustring \<Rightarrow> bool" where
  "isolated ok [] = True"
| "isolated ok (c # cs) =
     (if c \<in> PUNCT_SET then ok \<and> (cs = [] \<or> hd cs = 32) \<and> isolated False cs
      else isolated (c = 32) cs)"

section \<open>Properties of the tokenizer\<close>

lemma set_sorted_keys: "set (sorted_keys d) = set (dict_keys d)"
  by (simp add: sorted_keys_def)

lemma sorted_keys_descending:
  "sorted_wrt (\<lambda>a b. length b \<le> length a) (sorted_keys d)"
proof -
  have "sorted (map length (sort_key length (rev (dict_keys d))))"
    by (rule sorted_sort_key)
  then have "sorted_wrt (\<lambda>a b. length a \<le> length b) (sort_key length (rev (dict_keys d)))"
    by (simp add: sorted_wrt_map)
  then show ?thesis
    by (simp add: sorted_keys_def sorted_wrt_rev)
qed

lemma find_descending_longest:
  assumes desc: "sorted_wrt (\<lambda>a b. length b \<le> length a) ks"
    and fd: "find P ks = Some k"
    and k': "k' \<in> set ks" "P k'"
  shows "length k' \<le> length k"
proof -
  from fd obtain i where i: "i < length ks" "k = ks ! i" "\<forall>j<i. \<not> P (ks ! j)"
    by (auto simp: find_Some_iff)
  from k' obtain j where j: "j < length ks" "k' = ks ! j"
    by (auto simp: in_set_conv_nth)
  with i k' have "\<not> j < i" by auto
  then have "i = j \<or> i < j" by arith
  then show ?thesis
  proof
    assume "i = j" with i j show ?thesis by simp
  next
    assume "i < j"
    with desc j have "length (ks ! j) \<le> length (ks ! i)"
      by (simp add: sorted_wrt_iff_nth_less)
    with i j show ?thesis by simp
  qed
qed

lemma prefix_same_length: "prefix k zs \<Longrightarrow> prefix k' zs \<Longrightarrow> length k = length k' \<Longrightarrow> k = k'"
  by (metis prefix_order.eq_iff prefix_length_prefix order_refl)

lemma find_longest_key:
  assumes k: "k \<in> set (dict_keys d)" "k \<noteq> []" "startswith s k i"
    and mx: "\<forall>k'\<in>set (dict_keys d). startswith s k' i \<longrightarrow> length k' \<le> length k"
  shows "find (\<lambda>k. k \<noteq> [] \<and> startswith s k i) (sorted_keys d) = Some k"
proof -
  let ?P = "\<lambda>k. k \<noteq> [] \<and> startswith s k i"
  from k have "\<exists>x\<in>set (sorted_keys d). ?P x"
    by (auto simp: set_sorted_keys)
  then obtain k0 where k0: "find ?P (sorted_keys d) = Some k0"
    by (cases "find ?P (sorted_keys d)") (auto simp: find_None_iff)
  then have k0P: "k0 \<in> set (dict_keys d)" "k0 \<noteq> []" "startswith s k0 i"
    by (auto simp: find_Some_iff set_sorted_keys [symmetric])
  from k have "length k \<le> length k0"
    using find_descending_longest [OF sorted_keys_descending k0, of k]
    by (simp add: set_sorted_keys)
  moreover from mx k0P have "length k0 \<le> length k" by blast
  ultimately have "k0 = k"
    using k(3) k0P(3) by (auto simp: startswith_def intro: prefix_same_length)
  with k0 show ?thesis by simp
qed

lemma find_no_key:
  assumes "\<forall>k\<in>set (dict_keys d). k = [] \<or> \<not> startswith s k i"
  shows "find (\<lambda>k. k \<noteq> [] \<and> startswith s k i) (sorted_keys d) = None"
  using assms by (auto simp: find_None_iff set_sorted_keys)

lemma longest_key_exists:
  assumes "k \<in> set (dict_keys d)" "k \<noteq> []" "startswith s k i"
  shows "\<exists>m\<in>set (dict_keys d). m \<noteq> [] \<and> startswith s m i \<and>
           (\<forall>k'\<in>set (dict_keys d). startswith s k' i \<longrightarrow> length k' \<le> length m)"
proof -
  let ?P = "\<lambda>k. k \<noteq> [] \<and> startswith s k i"
  from assms have "\<exists>x\<in>set (sorted_keys d). ?P x"
    by (auto simp: set_sorted_keys)
  then obtain m where m: "find ?P (sorted_keys d) = Some m"
    by (cases "find ?P (sorted_keys d)") (auto simp: find_None_iff)
  then have mP: "m \<in> set (dict_keys d)" "m \<noteq> []" "startswith s m i"
    by (auto simp: find_Some_iff set_sorted_keys [symmetric])
  have "length k' \<le> length m" if "k' \<in> set (dict_keys d)" "startswith s k' i" for k'
  proof (cases "k' = []")
    case True then show ?thesis by simp
  next
    case False
    with that show ?thesis
      using find_descending_longest [OF sorted_keys_descending m, of k']
      by (simp add: set_sorted_keys)
  qed
  with mP show ?thesis by blast
qed

lemma tokenize_loop_done:
  "length s \<le> i \<Longrightarrow> tokenize_loop keys s i tokens unknown = (tokens, unknown)"
  by (simp add: tokenize_loop.simps)

lemma tokenize_loop_unmapped:
  assumes "i < length s" "\<forall>k\<in>set (dict_keys d). k = [] \<or> \<not> startswith s k i"
  shows "tokenize_loop (sorted_keys d) s i tokens unknown =
         tokenize_loop (sorted_keys d) s (i + 1) tokens (unknown @ [s ! i])"
  using assms(1) find_no_key [OF assms(2)]
  by (subst tokenize_loop.simps) simp

lemma tokenize_loop_match:
  assumes "i < length s" "k \<in> set (dict_keys d)" "k \<noteq> []" "startswith s k i"
    "\<forall>k'\<in>set (dict_keys d). startswith s k' i \<longrightarrow> length k' \<le> length k"
  shows "tokenize_loop (sorted_keys d) s i tokens unknown =
         tokenize_loop (sorted_keys d) s (i + length k) (tokens @ [k]) unknown"
  using assms(1) find_longest_key [OF assms(2-5)]
  by (subst tokenize_loop.simps) simp

lemma tokenize_loop_events:
  "tokenize_loop keys s i tokens unknown =
     (tokens @ tokens_of (scan_events keys s i), unknown @ unknown_of (scan_events keys s i))"
proof (induction keys s i tokens unknown rule: tokenize_loop.induct)
  case (1 keys s i tokens unknown)
  show ?case
  proof (cases "i < length s")
    case False
    then show ?thesis
      by (simp add: tokenize_loop.simps scan_events.simps)
  next
    case lt: True
    show ?thesis
    proof (cases "find (\<lambda>k. k \<noteq> [] \<and> startswith s k i) keys")
      case None
      with lt have ev: "scan_events keys s i = Unk (s ! i) # scan_events keys s (i + 1)"
        by (subst scan_events.simps) simp
      from None lt have "tokenize_loop keys s i tokens unknown =
          tokenize_loop keys s (i + 1) tokens (unknown @ [s ! i])"
        by (subst tokenize_loop.simps) simp
      with None lt "1.IH" ev show ?thesis
        by simp
    next
      case (Some k)
      with lt have ev: "scan_events keys s i = Tok k # scan_events keys s (i + length k)"
        by (subst scan_events.simps) simp
      from Some lt have "tokenize_loop keys s i tokens unknown =
          tokenize_loop keys s (i + length k) (tokens @ [k]) unknown"
        by (subst tokenize_loop.simps) simp
      with Some lt "1.IH" ev show ?thesis
        by simp
    qed
  qed
qed

lemma startswith_take: "startswith s k i \<Longrightarrow> take (length k) (drop i s) = k"
  by (auto simp: startswith_def prefix_def)

lemma startswith_bound:
  assumes "startswith s k i" "k \<noteq> []"
  shows "i + length k \<le> length s"
proof -
  from assms(1) have "length k \<le> length (drop i s)"
    unfolding startswith_def by (rule prefix_length_le)
  with assms(2) show ?thesis
    by (cases k) auto
qed

lemma scan_events_concat:
  "i \<le> length s \<Longrightarrow> concat (map event_text (scan_events keys s i)) = drop i s"
proof (induction keys s i rule: scan_events.induct)
  case (1 keys s i)
  show ?case
  proof (cases "i < length s")
    case False
    with "1.prems" show ?thesis
      by (simp add: scan_events.simps)
  next
    case lt: True
    show ?thesis
    proof (cases "find (\<lambda>k. k \<noteq> [] \<and> startswith s k i) keys")
      case None
      from lt have "drop i s = s ! i # drop (i + 1) s"
        by (simp add: Cons_nth_drop_Suc)
      with None lt "1.IH" show ?thesis
        by (subst scan_events.simps) simp
    next
      case (Some k)
      then have k: "k \<noteq> []" "startswith s k i"
        by (auto simp: find_Some_iff)
      then have le: "i + length k \<le> length s"
        by (rule startswith_bound [rotated])
      have "drop i s = take (length k) (drop i s) @ drop (length k) (drop i s)"
        by (rule append_take_drop_id [symmetric])
      also have "\<dots> = k @ drop (i + length k) s"
        using startswith_take [OF k(2)] by (simp add: add.commute)
      finally have "drop i s = k @ drop (i + length k) s" .
      with Some lt le "1.IH" show ?thesis
        by (subst scan_events.simps) simp
    qed
  qed
qed

lemma scan_events_nonempty: "[] \<notin> set (map event_text (scan_events keys s i))"
proof (induction keys s i rule: scan_events.induct)
  case (1 keys s i)
  show ?case
  proof (cases "i < length s")
    case False
    then show ?thesis
      by (simp add: scan_events.simps)
  next
    case lt: True
    show ?thesis
    proof (cases "find (\<lambda>k. k \<noteq> [] \<and> startswith s k i) keys")
      case None
      with lt "1.IH" show ?thesis
        by (subst scan_events.simps) simp
    next
      case (Some k)
      then have k: "k \<noteq> []"
        by (auto simp: find_Some_iff)
      with Some lt "1.IH" show ?thesis
        by (subst scan_events.simps) auto
    qed
  qed
qed

lemma scan_events_keys: "set (tokens_of (scan_events keys s i)) \<subseteq> set keys"
proof (induction keys s i rule: scan_events.induct)
  case (1 keys s i)
  show ?case
  proof (cases "i < length s")
    case False
    then show ?thesis
      by (simp add: scan_events.simps)
  next
    case lt: True
    show ?thesis
    proof (cases "find (\<lambda>k. k \<noteq> [] \<and> startswith s k i) keys")
      case None
      with lt "1.IH" show ?thesis
        by (subst scan_events.simps) simp
    next
      case (Some k)
      then have k: "k \<in> set keys"
        by (auto simp: find_Some_iff)
      with Some lt "1.IH" show ?thesis
        by (subst scan_events.simps) auto
    qed
  qed
qed

lemma events_length_le:
  "[] \<notin> set (map event_text es) \<Longrightarrow> length es \<le> length (concat (map event_text es))"
proof (induction es)
  case Nil
  then show ?case by simp
next
  case (Cons e es)
  then have "event_text e \<noteq> []" by auto
  then have "1 \<le> length (event_text e)"
    by (cases "event_text e") auto
  with Cons show ?case by auto
qed

lemma tokenize_loop_single_chars:
  assumes single: "\<forall>k\<in>set (dict_keys d). length k \<le> 1"
  shows "i \<le> length s \<Longrightarrow>
    tokenize_loop (sorted_keys d) s i tokens unknown =
      (tokens @ map (\<lambda>c. [c]) (filter (\<lambda>c. [c] \<in> set (dict_keys d)) (drop i s)),
       unknown @ filter (\<lambda>c. [c] \<notin> set (dict_keys d)) (drop i s))"
proof (induction "length s - i" arbitrary: i tokens unknown)
  case 0
  then show ?case
    by (simp add: tokenize_loop_done)
next
  case (Suc n)
  then have lt: "i < length s" and n: "n = length s - (i + 1)" and le: "i + 1 \<le> length s"
    by auto
  from lt have dr: "drop i s = s ! i # drop (i + 1) s"
    by (simp add: Cons_nth_drop_Suc)
  show ?case
  proof (cases "[s ! i] \<in> set (dict_keys d)")
    case True
    have sw: "startswith s [s ! i] i"
      by (simp add: startswith_def dr)
    have mx: "\<forall>k'\<in>set (dict_keys d). startswith s k' i \<longrightarrow> length k' \<le> length [s ! i]"
      using single by simp
    have "tokenize_loop (sorted_keys d) s i tokens unknown =
          tokenize_loop (sorted_keys d) s (i + length [s ! i]) (tokens @ [[s ! i]]) unknown"
      using lt True _ sw mx by (rule tokenize_loop_match) simp
    with True Suc.hyps(1) [OF n le] dr show ?thesis
      by simp
  next
    case False
    have "k = [] \<or> \<not> startswith s k i" if k: "k \<in> set (dict_keys d)" for k
    proof (cases k)
      case Nil
      then show ?thesis by simp
    next
      case (Cons x xs)
      with single k have "xs = []" by auto
      with Cons k False have "x \<noteq> s ! i" by auto
      with Cons \<open>xs = []\<close> show ?thesis
        by (simp add: startswith_def dr)
    qed
    then have "\<forall>k\<in>set (dict_keys d). k = [] \<or> \<not> startswith s k i"
      by blast
    with lt have "tokenize_loop (sorted_keys d) s i tokens unknown =
          tokenize_loop (sorted_keys d) s (i + 1) tokens (unknown @ [s ! i])"
      by (rule tokenize_loop_unmapped)
    with False Suc.hyps(1) [OF n le] dr show ?thesis
      by simp
  qed
qed

lemma str_replace_no_occurrence:
  "old \<noteq> [] \<Longrightarrow> (\<forall>i. \<not> prefix old (drop i s)) \<Longrightarrow> str_replace old new s = s"
proof (induction s)
  case Nil
  then show ?case by simp
next
  case (Cons c cs)
  from Cons.prems(2) have "\<not> prefix old (drop 0 (c # cs))" by blast
  then have np: "\<not> prefix old (c # cs)" by simp
  have "\<not> prefix old (drop i cs)" for i
    using Cons.prems(2) [rule_format, of "Suc i"] by simp
  with Cons.IH Cons.prems(1) have "str_replace old new cs = cs" by blast
  with np Cons.prems(1) show ?case by simp
qed

lemma get_phoneme_map_keys_single:
  "\<forall>k\<in>set (dict_keys get_phoneme_map). length k \<le> 1"
  by (simp add: get_phoneme_map_def dict_keys_def)

lemma get_phoneme_map_keys_shape:
  "\<forall>k\<in>set (dict_keys get_phoneme_map). k \<noteq> [32] \<longrightarrow> (\<exists>c. k = [c] \<and> \<not> py_isspace c \<and> c \<noteq> 47)"
  by (simp add: get_phoneme_map_def dict_keys_def py_isspace_def)

lemma get_phoneme_map_stress: "[712] \<in> set (dict_keys get_phoneme_map)"
  by (simp add: get_phoneme_map_def dict_keys_def)

lemma strip_ws_replicate: "\<not> py_isspace c \<Longrightarrow> strip_ws (replicate n c) = replicate n c"
  by (simp add: strip_ws_def dropWhile_replicate)

lemma strip_chars_replicate: "c \<notin> set chars \<Longrightarrow> strip_chars chars (replicate n c) = replicate n c"
  by (simp add: strip_chars_def dropWhile_replicate)

lemma str_replace_pair_replicate:
  assumes "a \<noteq> b"
  shows "str_replace [a, b] new (replicate n c) = replicate n c"
proof (rule str_replace_no_occurrence)
  show "[a, b] \<noteq> []" by simp
  show "\<forall>i. \<not> prefix [a, b] (drop i (replicate n c))"
  proof
    fix i
    show "\<not> prefix [a, b] (drop i (replicate n c))"
    proof
      assume "prefix [a, b] (drop i (replicate n c))"
      then have "set [a, b] \<subseteq> set (replicate (n - i) c)"
        by (auto dest: set_mono_prefix)
      then have "a = c" "b = c"
        by (auto split: if_splits)
      with assms show False by simp
    qed
  qed
qed

lemma round_trip_single_char:
  assumes single: "\<forall>k\<in>set (dict_keys d). length k \<le> 1"
    and key: "[c] \<in> set (dict_keys d)"
    and stress: "[712] \<in> set (dict_keys d)"
    and c: "\<not> py_isspace c" "c \<noteq> 47"
  shows "tokenize_ipa (replicate n c) d True = (replicate n [c], [])"
proof -
  have "preprocess (replicate n c) d True = replicate n c"
    using stress c
    by (simp add: preprocess_def Let_def strip_ws_replicate strip_chars_replicate
        str_replace_pair_replicate)
  moreover have "tokenize_loop (sorted_keys d) (replicate n c) 0 [] [] =
      (replicate n [c], [])"
    using tokenize_loop_single_chars [OF single, of 0 "replicate n c" "[]" "[]"] key
    by (simp add: map_replicate)
  ultimately show ?thesis
    by (simp add: tokenize_ipa_def)
qed

subsection \<open>The claims about the tokenizer\<close>

text \<open>
  Claim C1, as amended.  The transcription \<open>/ k\<dots>asa /\<close> is the code points
  47, 32, 107, 712, 97, 115, 97, 32, 47.  \<open>strip()\<close> finds no whitespace at the ends and
  \<open>strip('/')\<close> then removes the two slashes, so the string that is scanned still begins
  and ends with a space.  For every vocabulary of single-character keys that has
  \<open>k\<close>, the stress mark, \<open>a\<close> and \<open>s\<close>: if the space is a key the tokens are
  space, k, stress, a, s, a, space and nothing is unmapped; otherwise the tokens are
  k, stress, a, s, a and the two spaces are the unmapped characters.
\<close>

theorem tokenize_kasa_keeps_inner_spaces:
  assumes single: "\<forall>k\<in>set (dict_keys d). length k \<le> 1"
    and keys: "{[107], [712], [97], [115]} \<subseteq> set (dict_keys d)"
  shows "preprocess [47, 32, 107, 712, 97, 115, 97, 32, 47] d True = [32, 107, 712, 97, 115, 97, 32] \<and>
    tokenize_ipa [47, 32, 107, 712, 97, 115, 97, 32, 47] d True =
      (if [32] \<in> set (dict_keys d)
       then ([[32], [107], [712], [97], [115], [97], [32]], [])
       else ([[107], [712], [97], [115], [97]], [32, 32]))"
proof -
  have pre: "preprocess [47, 32, 107, 712, 97, 115, 97, 32, 47] d True = [32, 107, 712, 97, 115, 97, 32]"
    using keys by (simp add: preprocess_def Let_def strip_ws_def strip_chars_def py_isspace_def)
  show ?thesis
    using keys tokenize_loop_single_chars [OF single, of 0 "[32, 107, 712, 97, 115, 97, 32]" "[]" "[]"]
    by (simp add: tokenize_ipa_def pre)
qed

text \<open>The vocabulary with exactly the four keys of the claim satisfies the hypotheses.\<close>

theorem tokenize_kasa_keeps_inner_spaces_witness:
  "tokenize_ipa [47, 32, 107, 712, 97, 115, 97, 32, 47]
     [([107], 53), ([712], 156), ([97], 43), ([115], 61)] True =
   ([[107], [712], [97], [115], [97]], [32, 32])"
  using tokenize_kasa_keeps_inner_spaces [of "[([107], 53), ([712], 156), ([97], 43), ([115], 61)]"]
  by (simp add: dict_keys_def)

text \<open>
  Claim C1 as stated fails: with the four-key vocabulary two characters are unmapped, and
  with the vocabulary of \<open>get_phoneme_map\<close> the two spaces are tokens.
\<close>

theorem tokenize_kasa_counterexample:
  "tokenize_ipa [47, 32, 107, 712, 97, 115, 97, 32, 47]
     [([107], 53), ([712], 156), ([97], 43), ([115], 61)] True \<noteq>
   ([[107], [712], [97], [115], [97]], []) \<and>
   tokenize_ipa [47, 32, 107, 712, 97, 115, 97, 32, 47] get_phoneme_map True \<noteq>
   ([[107], [712], [97], [115], [97]], [])"
proof -
  have "tokenize_ipa [47, 32, 107, 712, 97, 115, 97, 32, 47]
     [([107], 53), ([712], 156), ([97], 43), ([115], 61)] True
     = ([[107], [712], [97], [115], [97]], [32, 32])"
    by (simp add: tokenize_ipa_def preprocess_def sorted_keys_def dict_keys_def strip_ws_def
        strip_chars_def py_isspace_def tokenize_loop.simps startswith_def)
  moreover have "tokenize_ipa [47, 32, 107, 712, 97, 115, 97, 32, 47] get_phoneme_map True
     = ([[32], [107], [712], [97], [115], [97], [32]], [])"
  proof -
    have sp: "[32] \<in> set (dict_keys get_phoneme_map)"
      and ks: "[107] \<in> set (dict_keys get_phoneme_map)" "[97] \<in> set (dict_keys get_phoneme_map)"
        "[115] \<in> set (dict_keys get_phoneme_map)"
      by (simp_all add: get_phoneme_map_def dict_keys_def)
    have pre: "preprocess [47, 32, 107, 712, 97, 115, 97, 32, 47] get_phoneme_map True =
        [32, 107, 712, 97, 115, 97, 32]"
      using get_phoneme_map_stress
      by (simp add: preprocess_def Let_def strip_ws_def strip_chars_def py_isspace_def)
    show ?thesis
      using tokenize_loop_single_chars [OF get_phoneme_map_keys_single, of 0
          "[32, 107, 712, 97, 115, 97, 32]" "[]" "[]"] sp ks get_phoneme_map_stress
      by (simp add: tokenize_ipa_def pre)
  qed
  ultimately show ?thesis by simp
qed

text \<open>
  Claim C4, as amended.  For every key of the vocabulary of \<open>get_phoneme_map\<close> other than
  the space, tokenizing the key repeated \<open>n\<close> times (with \<open>keep_stress_if_mapped\<close> true)
  gives that key \<open>n\<close> times and no unmapped character.
\<close>

theorem vocabulary_round_trip_except_space:
  "\<forall>k\<in>set (dict_keys get_phoneme_map). k \<noteq> [32] \<longrightarrow>
     tokenize_ipa (concat (replicate n k)) get_phoneme_map True = (replicate n k, [])"
proof (intro ballI impI)
  fix k
  assume k: "k \<in> set (dict_keys get_phoneme_map)" "k \<noteq> [32]"
  with get_phoneme_map_keys_shape obtain c where c: "k = [c]" "\<not> py_isspace c" "c \<noteq> 47"
    by blast
  have "concat (replicate n [c]) = replicate n c"
    by (induction n) simp_all
  with c k(1) show "tokenize_ipa (concat (replicate n k)) get_phoneme_map True = (replicate n k, [])"
    using round_trip_single_char [OF get_phoneme_map_keys_single _ get_phoneme_map_stress, of c n]
    by simp
qed

text \<open>The key \<open>a\<close> (97), three times.\<close>

theorem vocabulary_round_trip_except_space_witness:
  "[97] \<in> set (dict_keys get_phoneme_map) \<and> [97] \<noteq> [32::nat] \<and>
   tokenize_ipa [97, 97, 97] get_phoneme_map True = ([[97], [97], [97]], [])"
proof -
  have k: "[97] \<in> set (dict_keys get_phoneme_map)"
    by (simp add: get_phoneme_map_def dict_keys_def)
  have "tokenize_ipa (concat (replicate 3 [97])) get_phoneme_map True = (replicate 3 [97], [])"
    using vocabulary_round_trip_except_space [of 3] k by auto
  then show ?thesis
    using k by (simp add: numeral_3_eq_3)
qed

text \<open>
  Claim C4 as stated fails for the key that is the space: a transcription of spaces only is
  emptied by \<open>strip()\<close>, and no token is produced.
\<close>

theorem vocabulary_round_trip_space_counterexample:
  "[32] \<in> set (dict_keys get_phoneme_map) \<and>
   tokenize_ipa (concat (replicate 3 [32])) get_phoneme_map True = ([], []) \<and>
   replicate 3 [32::nat] \<noteq> []"
proof -
  have "concat (replicate 3 [32::nat]) = [32, 32, 32]"
    by (simp add: numeral_3_eq_3)
  moreover have "preprocess [32, 32, 32] get_phoneme_map True = []"
    by (simp add: preprocess_def Let_def strip_ws_def strip_chars_def py_isspace_def)
  moreover have "[32] \<in> set (dict_keys get_phoneme_map)"
    by (simp add: get_phoneme_map_def dict_keys_def)
  ultimately show ?thesis
    by (simp add: tokenize_ipa_def tokenize_loop_done)
qed

text \<open>
  Claim C5.  \<open>tokenize_ipa\<close> runs the loop from position 0 on the preprocessed string, and
  at every position \<open>i\<close> the loop does the following.  Past the end it returns the two
  lists.  If \<open>k\<close> is a non-empty key that is a prefix of the rest of the string and no key
  that is a prefix of the rest is longer, the loop appends \<open>k\<close> to the tokens and goes on at
  \<open>i + length k\<close>, whatever the order of the keys in the dictionary.  If no non-empty key
  is a prefix of the rest, the loop appends the character at \<open>i\<close> to the unmapped
  characters and goes on at \<open>i + 1\<close>.  Whenever some non-empty key matches there is a
  longest one, so the three cases cover every position.  There is no error branch: the
  function is total.
\<close>

theorem tokenize_greedy_longest_match:
  "tokenize_ipa t d keep = tokenize_loop (sorted_keys d) (preprocess t d keep) 0 [] [] \<and>
   (length s \<le> i \<longrightarrow> tokenize_loop (sorted_keys d) s i tokens unknown = (tokens, unknown)) \<and>
   (i < length s \<longrightarrow> k \<in> set (dict_keys d) \<longrightarrow> k \<noteq> [] \<longrightarrow> startswith s k i \<longrightarrow>
      (\<forall>k'\<in>set (dict_keys d). startswith s k' i \<longrightarrow> length k' \<le> length k) \<longrightarrow>
      tokenize_loop (sorted_keys d) s i tokens unknown =
      tokenize_loop (sorted_keys d) s (i + length k) (tokens @ [k]) unknown) \<and>
   (i < length s \<longrightarrow> (\<forall>k'\<in>set (dict_keys d). k' = [] \<or> \<not> startswith s k' i) \<longrightarrow>
      tokenize_loop (sorted_keys d) s i tokens unknown =
      tokenize_loop (sorted_keys d) s (i + 1) tokens (unknown @ [s ! i])) \<and>
   ((\<exists>k'\<in>set (dict_keys d). k' \<noteq> [] \<and> startswith s k' i) \<longrightarrow>
      (\<exists>m\<in>set (dict_keys d). m \<noteq> [] \<and> startswith s m i \<and>
         (\<forall>k'\<in>set (dict_keys d). startswith s k' i \<longrightarrow> length k' \<le> length m)))"
proof (intro conjI impI)
  show "tokenize_ipa t d keep = tokenize_loop (sorted_keys d) (preprocess t d keep) 0 [] []"
    by (simp add: tokenize_ipa_def)
next
  assume "length s \<le> i"
  then show "tokenize_loop (sorted_keys d) s i tokens unknown = (tokens, unknown)"
    by (rule tokenize_loop_done)
next
  assume "i < length s" "k \<in> set (dict_keys d)" "k \<noteq> []" "startswith s k i"
    "\<forall>k'\<in>set (dict_keys d). startswith s k' i \<longrightarrow> length k' \<le> length k"
  then show "tokenize_loop (sorted_keys d) s i tokens unknown =
      tokenize_loop (sorted_keys d) s (i + length k) (tokens @ [k]) unknown"
    by (rule tokenize_loop_match)
next
  assume "i < length s" "\<forall>k'\<in>set (dict_keys d). k' = [] \<or> \<not> startswith s k' i"
  then show "tokenize_loop (sorted_keys d) s i tokens unknown =
      tokenize_loop (sorted_keys d) s (i + 1) tokens (unknown @ [s ! i])"
    by (rule tokenize_loop_unmapped)
next
  assume "\<exists>k'\<in>set (dict_keys d). k' \<noteq> [] \<and> startswith s k' i"
  then obtain k' where "k' \<in> set (dict_keys d)" "k' \<noteq> []" "startswith s k' i"
    by blast
  then show "\<exists>m\<in>set (dict_keys d). m \<noteq> [] \<and> startswith s m i \<and>
         (\<forall>k'\<in>set (dict_keys d). startswith s k' i \<longrightarrow> length k' \<le> length m)"
    by (rule longest_key_exists)
qed

text \<open>
  The keys \<open>a\<close>, \<open>ab\<close> and the empty key on the string \<open>abc\<close>: the longer key \<open>ab\<close>
  wins at position 0, \<open>c\<close> is unmapped at position 2, and the scan ends at position 3.
\<close>

theorem tokenize_greedy_longest_match_witness:
  "tokenize_ipa [47, 97, 98, 99, 47] [([97], 5), ([97, 98], 6), ([], 7)] True = ([[97, 98]], [99])"
proof -
  let ?d = "[([97], 5), ([97, 98], 6), ([], 7)] :: vocab"
  let ?s = "[97, 98, 99] :: ustring"
  have pre: "preprocess [47, 97, 98, 99, 47] ?d True = ?s"
    by (simp add: preprocess_def Let_def strip_ws_def strip_chars_def py_isspace_def dict_keys_def)
  have a: "tokenize_ipa [47, 97, 98, 99, 47] ?d True = tokenize_loop (sorted_keys ?d) ?s 0 [] []"
    using tokenize_greedy_longest_match [of "[47, 97, 98, 99, 47]" ?d True] pre by simp
  have b: "tokenize_loop (sorted_keys ?d) ?s 0 [] [] = tokenize_loop (sorted_keys ?d) ?s (Suc (Suc 0)) [[97, 98]] []"
    using tokenize_greedy_longest_match [where d = ?d and s = ?s and i = 0 and k = "[97, 98]" and tokens = "[]" and unknown = "[]"]
    by (simp add: dict_keys_def startswith_def)
  have c: "tokenize_loop (sorted_keys ?d) ?s (Suc (Suc 0)) [[97, 98]] [] = tokenize_loop (sorted_keys ?d) ?s (Suc (Suc (Suc 0))) [[97, 98]] [99]"
    using tokenize_greedy_longest_match [where d = ?d and s = ?s and i = "Suc (Suc 0)" and tokens = "[[97, 98]]" and unknown = "[]"]
    by (simp add: dict_keys_def startswith_def)
  have e: "tokenize_loop (sorted_keys ?d) ?s (Suc (Suc (Suc 0))) [[97, 98]] [99] = ([[97, 98]], [99])"
    using tokenize_greedy_longest_match [where d = ?d and s = ?s and i = "Suc (Suc (Suc 0))" and tokens = "[[97, 98]]" and unknown = "[99]"]
    by simp
  from a b c e show ?thesis by simp
qed

text \<open>
  Claim C10.  The loop terminates on every input (\<open>tokenize_loop\<close> is a total function,
  by the termination proof that uses the non-emptiness of the matched key).  The trace of
  the loop projects to the two lists that \<open>tokenize_ipa\<close> returns, the concatenation of
  the trace in scan order is the preprocessed string, no event is empty (each iteration
  consumes at least one character), and the number of iterations is at most the length of
  the preprocessed string.
\<close>

theorem tokenize_consumes_input_once:
  "tokenize_ipa t d keep =
     (tokens_of (scan_events (sorted_keys d) (preprocess t d keep) 0),
      unknown_of (scan_events (sorted_keys d) (preprocess t d keep) 0)) \<and>
   concat (map event_text (scan_events (sorted_keys d) (preprocess t d keep) 0)) = preprocess t d keep \<and>
   [] \<notin> set (map event_text (scan_events (sorted_keys d) (preprocess t d keep) 0)) \<and>
   length (scan_events (sorted_keys d) (preprocess t d keep) 0) \<le> length (preprocess t d keep)"
proof -
  let ?s = "preprocess t d keep"
  let ?evs = "scan_events (sorted_keys d) ?s 0"
  have a: "tokenize_ipa t d keep = (tokens_of ?evs, unknown_of ?evs)"
    by (simp add: tokenize_ipa_def tokenize_loop_events)
  have b: "concat (map event_text ?evs) = ?s"
    using scan_events_concat [of 0 ?s] by simp
  have c: "[] \<notin> set (map event_text ?evs)"
    by (rule scan_events_nonempty)
  have "length ?evs \<le> length (concat (map event_text ?evs))"
    using c by (rule events_length_le)
  with b have d: "length ?evs \<le> length ?s" by simp
  from a b c d show ?thesis by blast
qed

text \<open>The same vocabulary and string as above: one token event, then one unmapped event.\<close>

theorem tokenize_consumes_input_once_witness:
  "scan_events (sorted_keys [([97], 5), ([97, 98], 6), ([], 7)])
     (preprocess [47, 97, 98, 99, 47] [([97], 5), ([97, 98], 6), ([], 7)] True) 0 = [Tok [97, 98], Unk 99] \<and>
   tokenize_ipa [47, 97, 98, 99, 47] [([97], 5), ([97, 98], 6), ([], 7)] True = ([[97, 98]], [99]) \<and>
   concat (map event_text [Tok [97, 98], Unk 99]) = [97, 98, 99]"
proof -
  let ?d = "[([97], 5), ([97, 98], 6), ([], 7)] :: vocab"
  have pre: "preprocess [47, 97, 98, 99, 47] ?d True = [97, 98, 99]"
    by (simp add: preprocess_def Let_def strip_ws_def strip_chars_def py_isspace_def dict_keys_def)
  have ev: "scan_events (sorted_keys ?d) [97, 98, 99] 0 = [Tok [97, 98], Unk 99]"
    by (simp add: scan_events.simps sorted_keys_def dict_keys_def startswith_def)
  show ?thesis
    using tokenize_consumes_input_once [of "[47, 97, 98, 99, 47]" ?d True]
    by (simp add: pre ev)
qed

section \<open>Properties of the stress functions\<close>

lemma m_seq_single: "m_seq [A] [] prev (c # cs) = (if c \<in> set A then 1 else 0)"
  by (simp add: m_seq_def)

lemma finditer_class_skip:
  "set pre \<inter> set A = {} \<Longrightarrow>
   re_finditer (m_seq [A] []) i prev (pre @ c # cs) =
   re_finditer (m_seq [A] []) (i + length pre) (if pre = [] then prev else Some (last pre)) (c # cs)"
proof (induction pre arbitrary: i prev)
  case Nil
  then show ?case by simp
next
  case (Cons x xs)
  then have x: "x \<notin> set A" and xs: "set xs \<inter> set A = {}"
    by auto
  show ?case
    using x Cons.IH [OF xs, of "i + 1" "Some x"]
    by (simp add: m_seq_single)
qed

lemma finditer_class_none:
  "set s \<inter> set A = {} \<Longrightarrow> re_finditer (m_seq [A] []) i prev s = []"
proof (induction s arbitrary: i prev)
  case Nil
  then show ?case by simp
next
  case (Cons x xs)
  then show ?case
    by (simp add: m_seq_single)
qed

lemma re_search_class_none:
  "set s \<inter> set A = {} \<Longrightarrow> re_search (m_seq [A] []) s = None"
  by (simp add: re_search_def finditer_class_none)

lemma re_search_class_first:
  assumes "set pre \<inter> set A = {}" "v \<in> set A"
  shows "re_search (m_seq [A] []) (pre @ v # post) = Some (length pre, length pre + 1)"
proof -
  have "re_finditer (m_seq [A] []) 0 None (pre @ v # post) =
        re_finditer (m_seq [A] []) (length pre) (if pre = [] then None else Some (last pre)) (v # post)"
    using finditer_class_skip [OF assms(1), of 0 None v post] by simp
  with assms(2) show ?thesis
    by (simp add: re_search_def m_seq_single Let_def)
qed

lemma strip_accents_append: "strip_accents (xs @ ys) = strip_accents xs @ strip_accents ys"
  by (simp add: strip_accents_def)

lemma strip_accents_Cons: "strip_accents (x # xs) = strip_accents [x] @ strip_accents xs"
  by (simp add: strip_accents_def)

lemma strip_accents_char:
  "strip_accents [c] =
     [if c = 225 then 97 else if c = 233 then 101 else if c = 237 then 105
      else if c = 243 then 111 else if c = 250 then 117 else c]"
  by (simp add: strip_accents_def ACUTE_MAP_def VOWELS_ACCENTED_def VOWELS_def)

lemma strip_accents_no_accent:
  "set (strip_accents s) \<inter> set VOWELS_ACCENTED = {}"
proof (induction s)
  case Nil
  then show ?case by (simp add: strip_accents_def)
next
  case (Cons c s)
  have "set (strip_accents [c]) \<inter> set VOWELS_ACCENTED = {}"
    by (simp add: strip_accents_char VOWELS_ACCENTED_def)
  with Cons show ?case
    by (subst strip_accents_Cons) (simp add: Int_Un_distrib2)
qed

lemma strip_accents_id:
  "set s \<inter> set VOWELS_ACCENTED = {} \<Longrightarrow> strip_accents s = s"
proof (induction s)
  case Nil
  then show ?case by (simp add: strip_accents_def)
next
  case (Cons c s)
  then have "c \<notin> set VOWELS_ACCENTED" and "strip_accents s = s"
    by auto
  moreover from \<open>c \<notin> set VOWELS_ACCENTED\<close> have "strip_accents [c] = [c]"
    by (simp add: strip_accents_char VOWELS_ACCENTED_def)
  ultimately show ?case
    by (subst strip_accents_Cons) simp
qed

lemma strip_accents_plain_Cons:
  "c \<notin> set VOWELS_ACCENTED \<Longrightarrow> strip_accents (c # s) = c # strip_accents s"
  using strip_accents_id [of "[c]"] by (subst strip_accents_Cons) simp

lemma strip_accents_zip:
  "(v, b) \<in> set (zip VOWELS_ACCENTED VOWELS) \<Longrightarrow> strip_accents [v] = [b] \<and> v \<in> set VOWELS_ACCENTED"
  by (auto simp: strip_accents_char VOWELS_ACCENTED_def VOWELS_def)

lemma finalizer_accent_free:
  "set s \<inter> set VOWELS_ACCENTED = {} \<Longrightarrow> insert_stress_marker_and_clean s = s"
  by (simp add: insert_stress_marker_and_clean_def re_search_class_none strip_accents_id)

lemma finalizer_first_accent:
  assumes pre: "set pre \<inter> set VOWELS_ACCENTED = {}"
    and v: "(v, b) \<in> set (zip VOWELS_ACCENTED VOWELS)"
  shows "insert_stress_marker_and_clean (pre @ v # post) =
     (if pre \<noteq> [] \<and> last pre \<in> {106, 119} then butlast pre @ [712, last pre] else pre @ [712])
       @ b # strip_accents post"
proof -
  from v have vb: "strip_accents [v] = [b]" and vA: "v \<in> set VOWELS_ACCENTED"
    by (simp_all add: strip_accents_zip)
  have se: "re_search (m_seq [VOWELS_ACCENTED] []) (pre @ v # post) = Some (length pre, length pre + 1)"
    using pre vA by (rule re_search_class_first)
  have m: "712 \<notin> set VOWELS_ACCENTED"
    by (simp add: VOWELS_ACCENTED_def)
  have bA: "b \<notin> set VOWELS_ACCENTED"
    using v by (auto simp: VOWELS_ACCENTED_def VOWELS_def)
  show ?thesis
  proof (cases "pre \<noteq> [] \<and> last pre \<in> {106, 119}")
    case True
    then have ne: "pre \<noteq> []" and gl: "last pre \<in> {106, 119}" by auto
    from ne have lp: "(pre @ v # post) ! (length pre - 1) = last pre"
      by (simp add: nth_append last_conv_nth)
    from ne have tk: "take (length pre - 1) (pre @ v # post) = butlast pre"
      by (simp add: butlast_conv_take)
    from ne have sl: "slice (length pre - 1) (length pre) (pre @ v # post) = [last pre]"
      by (cases pre rule: rev_cases) (simp_all add: slice_def)
    have bl: "set (butlast pre) \<inter> set VOWELS_ACCENTED = {}"
      using pre by (auto dest: in_set_butlastD)
    have lA: "last pre \<notin> set VOWELS_ACCENTED"
      using pre last_in_set [OF ne] by blast
    have "insert_stress_marker_and_clean (pre @ v # post) =
        strip_accents (butlast pre @ [712] @ [last pre] @ [b] @ post)"
      using ne gl lp tk sl vb
      by (simp add: insert_stress_marker_and_clean_def se Let_def)
    also have "\<dots> = butlast pre @ [712, last pre] @ [b] @ strip_accents post"
      using bl lA m bA by (simp add: strip_accents_append strip_accents_id strip_accents_plain_Cons)
    finally show ?thesis using True by simp
  next
    case False
    then have "\<not> (length pre > 0 \<and> (pre @ v # post) ! (length pre - 1) \<in> set [106, 119])"
      by (cases pre rule: rev_cases) (auto simp: nth_append)
    then have st: "(if length pre > 0 \<and> (pre @ v # post) ! (length pre - 1) \<in> set [106, 119]
        then length pre - 1 else length pre) = length pre"
      by (rule if_not_P)
    have "insert_stress_marker_and_clean (pre @ v # post) =
        strip_accents (pre @ [712] @ [b] @ post)"
      unfolding insert_stress_marker_and_clean_def se Let_def option.case fst_conv st
      using vb by (simp add: slice_def)
    also have "\<dots> = pre @ [712] @ [b] @ strip_accents post"
      using pre m bA by (simp add: strip_accents_append strip_accents_id strip_accents_plain_Cons)
    finally have "insert_stress_marker_and_clean (pre @ v # post) =
        (pre @ [712]) @ b # strip_accents post"
      by simp
    then show ?thesis
      by (simp only: False if_False)
  qed
qed

text \<open>
  Claim C6.  A string with no accented vowel is returned as it is.  In a string whose first
  accented vowel is \<open>v\<close>, with plain equivalent \<open>b\<close>, after the accent-free prefix \<open>pre\<close>: the
  stress mark U+02C8 (712) is put immediately before the vowel, or immediately before the
  glide when the character just before the vowel is \<open>j\<close> (106) or \<open>w\<close> (119); the vowel
  is replaced by \<open>b\<close>; and the rest of the string goes through \<open>strip_accents\<close>, which
  replaces every accented vowel by its plain equivalent, keeps every other character, and
  leaves no accented vowel.
\<close>

theorem finalizer_places_stress_marker:
  "(set s \<inter> set VOWELS_ACCENTED = {} \<longrightarrow> insert_stress_marker_and_clean s = s) \<and>
   (set pre \<inter> set VOWELS_ACCENTED = {} \<longrightarrow> (v, b) \<in> set (zip VOWELS_ACCENTED VOWELS) \<longrightarrow>
      insert_stress_marker_and_clean (pre @ v # post) =
        (if pre \<noteq> [] \<and> last pre \<in> {106, 119} then butlast pre @ [712, last pre] else pre @ [712])
          @ b # strip_accents post) \<and>
   strip_accents post =
     map (\<lambda>c. if c = 225 then 97 else if c = 233 then 101 else if c = 237 then 105
               else if c = 243 then 111 else if c = 250 then 117 else c) post \<and>
   set (strip_accents post) \<inter> set VOWELS_ACCENTED = {}"
proof (intro conjI impI)
  assume "set s \<inter> set VOWELS_ACCENTED = {}"
  then show "insert_stress_marker_and_clean s = s"
    by (rule finalizer_accent_free)
next
  assume "set pre \<inter> set VOWELS_ACCENTED = {}" "(v, b) \<in> set (zip VOWELS_ACCENTED VOWELS)"
  then show "insert_stress_marker_and_clean (pre @ v # post) =
        (if pre \<noteq> [] \<and> last pre \<in> {106, 119} then butlast pre @ [712, last pre] else pre @ [712])
          @ b # strip_accents post"
    by (rule finalizer_first_accent)
next
  show "strip_accents post =
     map (\<lambda>c. if c = 225 then 97 else if c = 233 then 101 else if c = 237 then 105
               else if c = 243 then 111 else if c = 250 then 117 else c) post"
  proof (induction post)
    case Nil
    then show ?case by (simp add: strip_accents_def)
  next
    case (Cons c post)
    then show ?case
      by (subst strip_accents_Cons) (simp add: strip_accents_char)
  qed
next
  show "set (strip_accents post) \<inter> set VOWELS_ACCENTED = {}"
    by (rule strip_accents_no_accent)
qed

text \<open>
  The accent-free \<open>kasa\<close>; then a glide before the accent and a second accent after it;
  then \<open>k\<close> before the accent.
\<close>

theorem finalizer_places_stress_marker_witness:
  "insert_stress_marker_and_clean [107, 97, 115, 97] = [107, 97, 115, 97] \<and>
   insert_stress_marker_and_clean [98, 119, 233, 110, 243] = [98, 712, 119, 101, 110, 111] \<and>
   insert_stress_marker_and_clean [107, 225, 115, 97] = [107, 712, 97, 115, 97]"
proof -
  have a: "insert_stress_marker_and_clean [107, 97, 115, 97] = [107, 97, 115, 97]"
    using finalizer_places_stress_marker [of "[107, 97, 115, 97]"]
    by (simp add: VOWELS_ACCENTED_def)
  have b: "insert_stress_marker_and_clean ([98, 119] @ 233 # [110, 243]) = [98, 712, 119, 101, 110, 111]"
    using finalizer_places_stress_marker [of _ "[98, 119]" 233 101 "[110, 243]"]
    by (simp add: VOWELS_ACCENTED_def VOWELS_def)
  have c: "insert_stress_marker_and_clean ([107] @ 225 # [115, 97]) = [107, 712, 97, 115, 97]"
    using finalizer_places_stress_marker [of _ "[107]" 225 97 "[115, 97]"]
    by (simp add: VOWELS_ACCENTED_def VOWELS_def)
  from a b c show ?thesis by simp
qed

lemma takeWhile_length_le: "length (takeWhile P xs) \<le> length xs"
  by (rule length_takeWhile_le)

lemma finditer_plus_spans:
  "(a, b) \<in> set (re_finditer (m_plus P) i prev rest) \<Longrightarrow>
     i \<le> a \<and> a < b \<and> b \<le> i + length rest \<and>
     (\<forall>k. a \<le> k \<and> k < b \<longrightarrow> P (rest ! (k - i))) \<and>
     (b < i + length rest \<longrightarrow> \<not> P (rest ! (b - i))) \<and>
     (i < a \<longrightarrow> \<not> P (rest ! (a - i - 1)))"
proof (induction "m_plus P" i prev rest arbitrary: a b rule: re_finditer.induct)
  case (1 i prev)
  then show ?case by simp
next
  case (2 i prev c cs)
  define rest where "rest = c # cs"
  define n where "n = length (takeWhile P rest)"
  have n_le: "n \<le> length rest"
    unfolding n_def by (rule length_takeWhile_le)
  then have mn: "min (m_plus P prev (c # cs)) (length (c # cs)) = n"
    by (simp add: m_plus_def n_def rest_def)
  have run: "P (rest ! j)" if "j < n" for j
  proof -
    from that have "P (takeWhile P rest ! j)"
      unfolding n_def by (metis nth_mem set_takeWhileD)
    with that show ?thesis
      by (simp add: takeWhile_nth n_def)
  qed
  have stop: "\<not> P (rest ! n)" if "n < length rest"
    using that unfolding n_def by (rule nth_length_takeWhile)
  show ?case
  proof (cases "n = 0")
    case n0: True
    with mn 2(3) have mem: "(a, b) \<in> set (re_finditer (m_plus P) (i + 1) (Some c) cs)"
      by simp
    from n0 stop have npc: "\<not> P c"
      by (simp add: rest_def)
    have ih: "i + 1 \<le> a \<and> a < b \<and> b \<le> i + 1 + length cs \<and>
       (\<forall>k. a \<le> k \<and> k < b \<longrightarrow> P (cs ! (k - (i + 1)))) \<and>
       (b < i + 1 + length cs \<longrightarrow> \<not> P (cs ! (b - (i + 1)))) \<and>
       (i + 1 < a \<longrightarrow> \<not> P (cs ! (a - (i + 1) - 1)))"
      using 2(1) [OF mn [symmetric] n0 mem] by simp
    then have ia: "i < a" by simp
    have r1: "\<forall>k. a \<le> k \<and> k < b \<longrightarrow> P ((c # cs) ! (k - i))"
    proof (intro allI impI)
      fix k assume k: "a \<le> k \<and> k < b"
      with ih have "P (cs ! (k - (i + 1)))" by blast
      moreover from k ia have "k - i = Suc (k - (i + 1))" by arith
      ultimately show "P ((c # cs) ! (k - i))" by simp
    qed
    have r2: "b < i + length (c # cs) \<longrightarrow> \<not> P ((c # cs) ! (b - i))"
    proof
      assume "b < i + length (c # cs)"
      with ih have "\<not> P (cs ! (b - (i + 1)))" by simp
      moreover from ih have "b - i = Suc (b - (i + 1))" by arith
      ultimately show "\<not> P ((c # cs) ! (b - i))" by simp
    qed
    have r3: "i < a \<longrightarrow> \<not> P ((c # cs) ! (a - i - 1))"
    proof (cases "a = i + 1")
      case True
      with npc show ?thesis by simp
    next
      case ne: False
      with ih have lt: "i + 1 < a" by simp
      with ih have "\<not> P (cs ! (a - (i + 1) - 1))" by blast
      moreover from lt have "a - i - 1 = Suc (a - (i + 1) - 1)" by arith
      ultimately show ?thesis by simp
    qed
    from ih r1 r2 r3 show ?thesis by simp
  next
    case False
    then have npos: "0 < n" by simp
    define rest' where "rest' = drop n rest"
    have dw: "rest' = dropWhile P rest"
      by (simp add: rest'_def n_def dropWhile_eq_drop)
    from 2(3) mn npos have mem:
      "(a, b) = (i, i + n) \<or>
       (a, b) \<in> set (re_finditer (m_plus P) (i + n) (Some (last (take n rest))) rest')"
      by (simp add: rest_def rest'_def)
    then show ?thesis
    proof
      assume eq: "(a, b) = (i, i + n)"
      have r1: "\<forall>k. a \<le> k \<and> k < b \<longrightarrow> P (rest ! (k - i))"
      proof (intro allI impI)
        fix k assume "a \<le> k \<and> k < b"
        with eq have "k - i < n" by auto
        then show "P (rest ! (k - i))" by (rule run)
      qed
      have r2: "b < i + length rest \<longrightarrow> \<not> P (rest ! (b - i))"
      proof
        assume "b < i + length rest"
        with eq have "n < length rest" by auto
        then have "\<not> P (rest ! n)" by (rule stop)
        with eq show "\<not> P (rest ! (b - i))" by auto
      qed
      from eq npos n_le r1 r2 show ?thesis
        unfolding rest_def by auto
    next
      assume mem': "(a, b) \<in> set (re_finditer (m_plus P) (i + n) (Some (last (take n rest))) rest')"
      have ih: "i + n \<le> a \<and> a < b \<and> b \<le> i + n + length rest' \<and>
         (\<forall>k. a \<le> k \<and> k < b \<longrightarrow> P (rest' ! (k - (i + n)))) \<and>
         (b < i + n + length rest' \<longrightarrow> \<not> P (rest' ! (b - (i + n)))) \<and>
         (i + n < a \<longrightarrow> \<not> P (rest' ! (a - (i + n) - 1)))"
        using 2(2) [OF mn [symmetric] _ mem' [unfolded rest_def rest'_def]] npos
        by (simp add: rest_def rest'_def)
      have len: "n + length rest' = length rest"
        using n_le by (simp add: rest'_def)
      have nth': "rest' ! j = rest ! (n + j)" if "n + j < length rest" for j
        using that n_le by (simp add: rest'_def)
      from ih len have ne: "rest' \<noteq> []" by auto
      with dw have hd: "\<not> P (hd rest')"
        by (metis hd_dropWhile)
      have a_gt: "i + n < a"
      proof (rule ccontr)
        assume "\<not> i + n < a"
        with ih have "a = i + n" by simp
        with ih have "P (rest' ! 0)" by (metis diff_self_eq_0 le_refl)
        with ne hd show False by (simp add: hd_conv_nth)
      qed
      have r1: "\<forall>k. a \<le> k \<and> k < b \<longrightarrow> P (rest ! (k - i))"
      proof (intro allI impI)
        fix k assume k: "a \<le> k \<and> k < b"
        with ih have p: "P (rest' ! (k - (i + n)))" by blast
        from k ih len have "n + (k - (i + n)) < length rest" by arith
        from nth' [OF this] p have "P (rest ! (n + (k - (i + n))))" by simp
        moreover from k ih have "n + (k - (i + n)) = k - i" by arith
        ultimately show "P (rest ! (k - i))" by simp
      qed
      have r2: "b < i + length rest \<longrightarrow> \<not> P (rest ! (b - i))"
      proof
        assume lt: "b < i + length rest"
        with ih len have p: "\<not> P (rest' ! (b - (i + n)))" by simp
        from lt ih have "n + (b - (i + n)) < length rest" by arith
        from nth' [OF this] p have "\<not> P (rest ! (n + (b - (i + n))))" by simp
        moreover from ih have "n + (b - (i + n)) = b - i" by arith
        ultimately show "\<not> P (rest ! (b - i))" by simp
      qed
      have r3: "\<not> P (rest ! (a - i - 1))"
      proof -
        from a_gt ih have p: "\<not> P (rest' ! (a - (i + n) - 1))" by blast
        from a_gt ih len have "n + (a - (i + n) - 1) < length rest" by arith
        from nth' [OF this] p have "\<not> P (rest ! (n + (a - (i + n) - 1)))" by simp
        moreover from a_gt have "n + (a - (i + n) - 1) = a - i - 1" by arith
        ultimately show ?thesis by simp
      qed
      from ih len r1 r2 r3 show ?thesis
        unfolding rest_def by auto
    qed
  qed
qed

lemma finditer_plus_sorted:
  "sorted_wrt (\<lambda>x y. snd x \<le> fst y) (re_finditer (m_plus P) i prev rest)"
proof (induction "m_plus P" i prev rest rule: re_finditer.induct)
  case (1 i prev)
  then show ?case by simp
next
  case (2 i prev c cs)
  define n where "n = min (m_plus P prev (c # cs)) (length (c # cs))"
  have unf: "re_finditer (m_plus P) i prev (c # cs) =
      (if n = 0 then re_finditer (m_plus P) (i + 1) (Some c) cs
       else (i, i + n) # re_finditer (m_plus P) (i + n) (Some (last (take n (c # cs)))) (drop n (c # cs)))"
    by (simp only: re_finditer.simps Let_def n_def)
  show ?case
  proof (cases "n = 0")
    case True
    with 2(1) [OF n_def] show ?thesis
      unfolding unf by simp
  next
    case False
    have "i + n \<le> fst g" if "g \<in> set (re_finditer (m_plus P) (i + n) (Some (last (take n (c # cs)))) (drop n (c # cs)))" for g
      using finditer_plus_spans [of "fst g" "snd g" P "i + n" _ "drop n (c # cs)"] that
      by simp
    with False 2(2) [OF n_def] show ?thesis
      unfolding unf by auto
  qed
qed

lemma finditer_plus_covers:
  "i \<le> k \<Longrightarrow> k < i + length rest \<Longrightarrow> P (rest ! (k - i)) \<Longrightarrow>
   \<exists>g\<in>set (re_finditer (m_plus P) i prev rest). fst g \<le> k \<and> k < snd g"
proof (induction "m_plus P" i prev rest rule: re_finditer.induct)
  case (1 i prev)
  then show ?case by simp
next
  case (2 i prev c cs)
  define rest where "rest = c # cs"
  define n where "n = length (takeWhile P rest)"
  have n_le: "n \<le> length rest"
    unfolding n_def by (rule length_takeWhile_le)
  then have mn: "min (m_plus P prev (c # cs)) (length (c # cs)) = n"
    by (simp add: m_plus_def n_def rest_def)
  have stop: "\<not> P (rest ! n)" if "n < length rest"
    using that unfolding n_def by (rule nth_length_takeWhile)
  show ?case
  proof (cases "n = 0")
    case n0: True
    with stop have npc: "\<not> P c" by (simp add: rest_def)
    with 2(3-5) have "i + 1 \<le> k"
      by (cases "k = i") auto
    moreover with 2(4) have "k < i + 1 + length cs" by simp
    moreover from 2(5) \<open>i + 1 \<le> k\<close> have "P (cs ! (k - (i + 1)))"
      by (simp add: nth_Cons')
    ultimately have "\<exists>g\<in>set (re_finditer (m_plus P) (i + 1) (Some c) cs). fst g \<le> k \<and> k < snd g"
      by (rule 2(1) [OF mn [symmetric] n0])
    with mn n0 show ?thesis by simp
  next
    case False
    then have npos: "0 < n" by simp
    have unf: "re_finditer (m_plus P) i prev (c # cs) =
        (i, i + n) # re_finditer (m_plus P) (i + n) (Some (last (take n (c # cs)))) (drop n (c # cs))"
      using mn npos by simp
    show ?thesis
    proof (cases "k < i + n")
      case True
      with 2(3) unf show ?thesis by simp
    next
      case ge: False
      then have kn: "i + n \<le> k" by simp
      with 2(4) have nl: "n < length rest" by (simp add: rest_def)
      from 2(4) kn n_le have k2: "k < i + n + length (drop n (c # cs))"
        by (simp add: rest_def)
      have "drop n (c # cs) ! (k - (i + n)) = (c # cs) ! (n + (k - (i + n)))"
        using n_le 2(4) kn by (simp add: rest_def)
      moreover have "n + (k - (i + n)) = k - i" using kn by arith
      ultimately have "P (drop n (c # cs) ! (k - (i + n)))"
        using 2(5) by simp
      with kn k2 have "\<exists>g\<in>set (re_finditer (m_plus P) (i + n) (Some (last (take n (c # cs)))) (drop n (c # cs))).
          fst g \<le> k \<and> k < snd g"
        using 2(2) [OF mn [symmetric] False] by blast
      with unf show ?thesis by auto
    qed
  qed
qed

lemma vowel_groups_runs: "g \<in> set (vowel_groups s) \<Longrightarrow> vowel_run s g"
  using finditer_plus_spans [of "fst g" "snd g" "\<lambda>c. c \<in> set ALL_VOWELS" 0 None s]
  by (auto simp: vowel_groups_def vowel_run_def)

lemma vowel_groups_sorted: "sorted_wrt (\<lambda>x y. snd x \<le> fst y) (vowel_groups s)"
  unfolding vowel_groups_def by (rule finditer_plus_sorted)

lemma vowel_groups_cover:
  "k < length s \<Longrightarrow> s ! k \<in> set ALL_VOWELS \<Longrightarrow> \<exists>g\<in>set (vowel_groups s). fst g \<le> k \<and> k < snd g"
  using finditer_plus_covers [of 0 k s "\<lambda>c. c \<in> set ALL_VOWELS" None]
  by (simp add: vowel_groups_def)

lemma ends_like_penult_last:
  "ends_like_penult s \<longleftrightarrow> s \<noteq> [] \<and> last s \<in> set VOWELS \<union> {110, 115}"
proof (cases s rule: rev_cases)
  case Nil
  then show ?thesis by (simp add: ends_like_penult_def suffix_def)
next
  case (snoc ys y)
  then show ?thesis by (auto simp: ends_like_penult_def)
qed

lemma accent_map_defined:
  "c \<in> set VOWELS \<Longrightarrow> \<exists>a. map_of ACCENT_VOWEL_MAP c = Some a \<and> (a, c) \<in> set (zip VOWELS_ACCENTED VOWELS)"
  by (auto simp: VOWELS_def ACCENT_VOWEL_MAP_def VOWELS_ACCENTED_def)

lemma add_stress_accented: "\<exists>v\<in>set VOWELS_ACCENTED. v \<in> set s \<Longrightarrow> add_stress_if_needed s = Inr s"
  by (simp add: add_stress_if_needed_def)

lemma add_stress_few_groups: "length (vowel_groups s) \<le> 1 \<Longrightarrow> add_stress_if_needed s = Inr s"
  by (simp add: add_stress_if_needed_def Let_def)

lemma add_stress_default:
  assumes na: "\<not> (\<exists>v\<in>set VOWELS_ACCENTED. v \<in> set s)"
    and two: "2 \<le> length (vowel_groups s)"
  defines "t \<equiv> length (vowel_groups s) - (if ends_like_penult s then 2 else 1)"
  defines "j \<equiv> fst (vowel_groups s ! t)"
  shows "j < length s \<and> s ! j \<in> set VOWELS \<and>
    (\<exists>a. map_of ACCENT_VOWEL_MAP (s ! j) = Some a \<and> add_stress_if_needed s = Inr (s[j := a]))"
proof -
  let ?gs = "vowel_groups s"
  from two have t_lt: "t < length ?gs"
    by (cases "ends_like_penult s") (auto simp: t_def)
  have ti': "nat (if int (length ?gs) - (if ends_like_penult s then 2 else 1) < 0 then 0
        else int (length ?gs) - (if ends_like_penult s then 2 else 1)) = t"
  proof -
    have "nat (int (length ?gs) - 1) = length ?gs - 1" "nat (int (length ?gs) - 2) = length ?gs - 2"
      by arith+
    with two show ?thesis
      by (cases "ends_like_penult s") (simp_all add: t_def)
  qed
  from t_lt have "?gs ! t \<in> set ?gs" by simp
  then have run: "vowel_run s (?gs ! t)"
    by (rule vowel_groups_runs)
  then have lt: "j < snd (?gs ! t)" and le: "snd (?gs ! t) \<le> length s"
    and v: "s ! j \<in> set ALL_VOWELS"
    by (auto simp: vowel_run_def j_def)
  from lt le have jl: "j < length s" by simp
  with na have "s ! j \<notin> set VOWELS_ACCENTED"
    by (metis nth_mem)
  with v have pv: "s ! j \<in> set VOWELS"
    by (simp add: ALL_VOWELS_def)
  then obtain a where a: "map_of ACCENT_VOWEL_MAP (s ! j) = Some a"
    using accent_map_defined by blast
  from lt have up: "[j..<snd (?gs ! t)] = j # [Suc j..<snd (?gs ! t)]"
    by (simp add: upt_conv_Cons)
  have "accent_first_plain s [j..<snd (?gs ! t)] = Inr (take j s @ [a] @ drop (j + 1) s)"
    using pv a by (simp add: up)
  also have "take j s @ [a] @ drop (j + 1) s = s[j := a]"
    using jl by (simp add: upd_conv_take_nth_drop)
  finally have acc: "accent_first_plain s [j..<snd (?gs ! t)] = Inr (s[j := a])" .
  from two have not_le: "\<not> length ?gs \<le> 1" by simp
  have "add_stress_if_needed s = accent_first_plain s [j..<snd (?gs ! t)]"
    unfolding j_def
    by (simp only: add_stress_if_needed_def Let_def if_not_P [OF na] if_not_P [OF not_le] ti'
        if_P [OF t_lt])
  with acc have "add_stress_if_needed s = Inr (s[j := a])"
    by simp
  with jl pv a show ?thesis by blast
qed

text \<open>
  Claim C3.  A string that contains an accented vowel, or that has at most one vowel group,
  is returned unchanged.  A string with no accented vowel and at least two vowel groups
  gets the acute accent on the first character \<open>j\<close> of one group, which is a plain vowel
  (so it is the first plain vowel of that group): the group before the last when the
  string ends in a plain vowel, \<open>n\<close> (110) or \<open>s\<close> (115), the last group otherwise.  With
  two or more groups the index is never negative, so the clamp to the first group does not
  change it.  No \<open>KeyError\<close> or \<open>IndexError\<close> is raised.  The groups that the source
  computes are maximal runs of vowel characters, in increasing order, and every vowel
  character lies in one of them.
\<close>

theorem stress_assigner_default_rule:
  "((\<exists>v\<in>set VOWELS_ACCENTED. v \<in> set s) \<longrightarrow> add_stress_if_needed s = Inr s) \<and>
   (length (vowel_groups s) \<le> 1 \<longrightarrow> add_stress_if_needed s = Inr s) \<and>
   (set s \<inter> set VOWELS_ACCENTED = {} \<longrightarrow> 2 \<le> length (vowel_groups s) \<longrightarrow>
      (\<exists>j a. j = fst (vowel_groups s ! (length (vowel_groups s) -
                   (if s \<noteq> [] \<and> last s \<in> set VOWELS \<union> {110, 115} then 2 else 1))) \<and>
         j < length s \<and> s ! j \<in> set VOWELS \<and> (a, s ! j) \<in> set (zip VOWELS_ACCENTED VOWELS) \<and>
         add_stress_if_needed s = Inr (s[j := a]))) \<and>
   (\<forall>g\<in>set (vowel_groups s). vowel_run s g) \<and>
   sorted_wrt (\<lambda>x y. snd x \<le> fst y) (vowel_groups s) \<and>
   (\<forall>k<length s. s ! k \<in> set ALL_VOWELS \<longrightarrow> (\<exists>g\<in>set (vowel_groups s). fst g \<le> k \<and> k < snd g))"
proof (intro conjI impI)
  assume "\<exists>v\<in>set VOWELS_ACCENTED. v \<in> set s"
  then show "add_stress_if_needed s = Inr s"
    by (rule add_stress_accented)
next
  assume "length (vowel_groups s) \<le> 1"
  then show "add_stress_if_needed s = Inr s"
    by (rule add_stress_few_groups)
next
  assume na: "set s \<inter> set VOWELS_ACCENTED = {}" and two: "2 \<le> length (vowel_groups s)"
  from na have na': "\<not> (\<exists>v\<in>set VOWELS_ACCENTED. v \<in> set s)"
    by blast
  let ?j = "fst (vowel_groups s ! (length (vowel_groups s) - (if ends_like_penult s then 2 else 1)))"
  from add_stress_default [OF na' two]
  obtain a where a: "?j < length s" "s ! ?j \<in> set VOWELS" "map_of ACCENT_VOWEL_MAP (s ! ?j) = Some a"
    "add_stress_if_needed s = Inr (s[?j := a])"
    by blast
  from accent_map_defined [OF a(2)] a(3) have "(a, s ! ?j) \<in> set (zip VOWELS_ACCENTED VOWELS)"
    by auto
  with a show "\<exists>j a. j = fst (vowel_groups s ! (length (vowel_groups s) -
                   (if s \<noteq> [] \<and> last s \<in> set VOWELS \<union> {110, 115} then 2 else 1))) \<and>
         j < length s \<and> s ! j \<in> set VOWELS \<and> (a, s ! j) \<in> set (zip VOWELS_ACCENTED VOWELS) \<and>
         add_stress_if_needed s = Inr (s[j := a])"
    unfolding ends_like_penult_last by blast
next
  show "\<forall>g\<in>set (vowel_groups s). vowel_run s g"
    by (blast intro: vowel_groups_runs)
next
  show "sorted_wrt (\<lambda>x y. snd x \<le> fst y) (vowel_groups s)"
    by (rule vowel_groups_sorted)
next
  show "\<forall>k<length s. s ! k \<in> set ALL_VOWELS \<longrightarrow> (\<exists>g\<in>set (vowel_groups s). fst g \<le> k \<and> k < snd g)"
    by (blast intro: vowel_groups_cover)
qed

text \<open>
  \<open>kasa\<close> ends in a vowel: the accent goes to the first of its two groups.  \<open>papel\<close>
  ends in \<open>l\<close>: the accent goes to the last group.  \<open>sol\<close> has one group and
  \<open>kaf\<close> with an accented \<open>e\<close> has an accent already: both are unchanged.
\<close>

theorem stress_assigner_default_rule_witness:
  "add_stress_if_needed [107, 97, 115, 97] = Inr [107, 225, 115, 97] \<and>
   add_stress_if_needed [112, 97, 112, 101, 108] = Inr [112, 97, 112, 233, 108] \<and>
   add_stress_if_needed [115, 111, 108] = Inr [115, 111, 108] \<and>
   add_stress_if_needed [107, 97, 102, 233] = Inr [107, 97, 102, 233] \<and>
   vowel_run [107, 97, 115, 97] (1, 2)"
proof -
  have g1: "vowel_groups [107, 97, 115, 97] = [(1, 2), (3, 4)]"
    by (simp add: vowel_groups_def m_plus_def ALL_VOWELS_def VOWELS_def VOWELS_ACCENTED_def)
  have g2: "vowel_groups [112, 97, 112, 101, 108] = [(1, 2), (3, 4)]"
    by (simp add: vowel_groups_def m_plus_def ALL_VOWELS_def VOWELS_def VOWELS_ACCENTED_def)
  have g3: "vowel_groups [115, 111, 108] = [(1, 2)]"
    by (simp add: vowel_groups_def m_plus_def ALL_VOWELS_def VOWELS_def VOWELS_ACCENTED_def)
  have a: "add_stress_if_needed [107, 97, 115, 97] = Inr [107, 225, 115, 97]"
    using stress_assigner_default_rule [of "[107, 97, 115, 97]"]
    by (auto simp: g1 VOWELS_def VOWELS_ACCENTED_def)
  have b: "add_stress_if_needed [112, 97, 112, 101, 108] = Inr [112, 97, 112, 233, 108]"
    using stress_assigner_default_rule [of "[112, 97, 112, 101, 108]"]
    by (auto simp: g2 VOWELS_def VOWELS_ACCENTED_def)
  have c: "add_stress_if_needed [115, 111, 108] = Inr [115, 111, 108]"
    using stress_assigner_default_rule [of "[115, 111, 108]"]
    by (simp add: g3)
  have d: "add_stress_if_needed [107, 97, 102, 233] = Inr [107, 97, 102, 233]"
    using stress_assigner_default_rule [of "[107, 97, 102, 233]"]
    by (simp add: VOWELS_ACCENTED_def)
  have e: "vowel_run [107, 97, 115, 97] (1, 2)"
    using stress_assigner_default_rule [of "[107, 97, 115, 97]"]
    by (simp add: g1)
  from a b c d e show ?thesis by simp
qed

section \<open>Properties of the pipeline driver\<close>

lemma add_stress_total: "\<exists>r. add_stress_if_needed s = Inr r"
proof (cases "\<exists>v\<in>set VOWELS_ACCENTED. v \<in> set s")
  case True
  then show ?thesis by (simp add: add_stress_accented)
next
  case na: False
  show ?thesis
  proof (cases "length (vowel_groups s) \<le> 1")
    case True
    then show ?thesis by (simp add: add_stress_few_groups)
  next
    case False
    then have "2 \<le> length (vowel_groups s)" by simp
    from add_stress_default [OF na this] show ?thesis by blast
  qed
qed

lemma finalizer_no_accent:
  "set (insert_stress_marker_and_clean s) \<inter> set VOWELS_ACCENTED = {}"
  by (cases "re_search (m_seq [VOWELS_ACCENTED] []) s")
    (simp_all add: insert_stress_marker_and_clean_def Let_def strip_accents_no_accent)

lemma punct_no_accent: "set tok \<subseteq> PUNCT_SET \<Longrightarrow> set tok \<inter> set VOWELS_ACCENTED = {}"
  by (auto simp: PUNCT_SET_def PUNCT_CHARS_def VOWELS_ACCENTED_def)

text \<open>What one word token contributes to \<open>out\<close>.\<close>

lemma g2p_loop_Cons_word:
  assumes "tok \<noteq> []" "\<not> set tok \<subseteq> PUNCT_SET"
  shows "\<exists>p2. add_stress_if_needed (map_graphemes lower tok) = Inr p2 \<and>
     g2p_loop lower (tok # toks) out =
     g2p_loop lower toks (out @ [insert_stress_marker_and_clean (apply_glides p2)])"
proof -
  from add_stress_total obtain p2 where "add_stress_if_needed (map_graphemes lower tok) = Inr p2"
    by blast
  with assms show ?thesis by (simp add: Let_def)
qed

lemma g2p_loop_invariant:
  assumes step_punct: "\<And>tok. tok \<noteq> [] \<Longrightarrow> set tok \<subseteq> PUNCT_SET \<Longrightarrow> Q tok"
    and step_word: "\<And>p. Q (insert_stress_marker_and_clean p)"
  shows "\<forall>p\<in>set out. Q p \<Longrightarrow>
    \<exists>out'. g2p_loop lower toks out = Inr out' \<and> (\<forall>p\<in>set out'. Q p)"
proof (induction toks arbitrary: out)
  case Nil
  then show ?case by simp
next
  case (Cons tok toks)
  show ?case
  proof (cases "tok = []")
    case True
    with Cons show ?thesis by simp
  next
    case ne: False
    show ?thesis
    proof (cases "set tok \<subseteq> PUNCT_SET")
      case True
      with ne Cons.prems step_punct have "\<forall>p\<in>set (out @ [tok]). Q p" by auto
      from Cons.IH [OF this] ne True show ?thesis by simp
    next
      case False
      from g2p_loop_Cons_word [OF ne False, of lower toks out]
      obtain p2 where eq: "g2p_loop lower (tok # toks) out =
          g2p_loop lower toks (out @ [insert_stress_marker_and_clean (apply_glides p2)])"
        by blast
      from Cons.prems step_word
      have "\<forall>p\<in>set (out @ [insert_stress_marker_and_clean (apply_glides p2)]). Q p"
        by auto
      from Cons.IH [OF this] eq show ?thesis by simp
    qed
  qed
qed

lemma set_join_subset: "set (join sep xs) \<subseteq> set sep \<union> \<Union> (set ` set xs)"
  by (induction sep xs rule: join.induct) auto

lemma set_join_elems: "\<Union> (set ` set xs) \<subseteq> set (join sep xs)"
  by (induction sep xs rule: join.induct) auto

lemma set_strip_ws: "set (strip_ws s) \<subseteq> set s"
proof -
  have "set (strip_ws s) \<subseteq> set (dropWhile py_isspace s)"
    unfolding strip_ws_def by (metis set_dropWhileD set_rev subsetI)
  also have "\<dots> \<subseteq> set s"
    by (auto dest: set_dropWhileD)
  finally show ?thesis .
qed

lemma strip_ws_Nil_iff: "strip_ws s = [] \<longleftrightarrow> (\<forall>c\<in>set s. py_isspace c)"
proof
  assume "strip_ws s = []"
  then have "\<forall>x\<in>set (dropWhile py_isspace s). py_isspace x"
    by (simp add: strip_ws_def dropWhile_eq_Nil_conv)
  then have "dropWhile py_isspace s = []"
    by (metis hd_dropWhile hd_in_set)
  then show "\<forall>c\<in>set s. py_isspace c"
    by (simp add: dropWhile_eq_Nil_conv)
next
  assume "\<forall>c\<in>set s. py_isspace c"
  then have dw: "dropWhile py_isspace s = []"
    by (simp add: dropWhile_eq_Nil_conv)
  show "strip_ws s = []"
    unfolding strip_ws_def dw by simp
qed

text \<open>
  Claim C2.  For every input text, and whatever NFC and \<open>lower\<close> do, \<open>g2p\<close> returns a
  string (no \<open>KeyError\<close> or \<open>IndexError\<close> is raised) and the string contains none of the
  accented vowels U+00E1, E9, ED, F3, FA.
\<close>

theorem g2p_output_has_no_accented_vowel:
  "\<exists>r. g2p nfc lower text = Inr r \<and> set r \<inter> set VOWELS_ACCENTED = {}"
proof (cases "text = []")
  case True
  then show ?thesis
    by (simp add: g2p_def VOWELS_ACCENTED_def)
next
  case False
  have "\<forall>p\<in>set ([] :: ustring list). set p \<inter> set VOWELS_ACCENTED = {}"
    by simp
  then obtain out where out: "g2p_loop lower (g2p_tokens nfc text) [] = Inr out"
    and acc: "\<forall>p\<in>set out. set p \<inter> set VOWELS_ACCENTED = {}"
    using g2p_loop_invariant [where Q = "\<lambda>p. set p \<inter> set VOWELS_ACCENTED = {}" and out = "[]"
        and lower = lower and toks = "g2p_tokens nfc text"]
      punct_no_accent finalizer_no_accent
    by blast
  have sp: "set [32] \<inter> set VOWELS_ACCENTED = {}"
    by (simp add: VOWELS_ACCENTED_def)
  have "set (join [32] out) \<inter> set VOWELS_ACCENTED = {}"
    using set_join_subset [of "[32]" out] acc sp by blast
  then have res: "set (strip_ws (join [32] out)) \<inter> set VOWELS_ACCENTED = {}"
    using set_strip_ws [of "join [32] out"] by blast
  have "set ([47, 32] @ strip_ws (join [32] out) @ [32, 47]) \<inter> set VOWELS_ACCENTED = {}"
    using res by (auto simp: VOWELS_ACCENTED_def)
  moreover have "set [47, 47] \<inter> set VOWELS_ACCENTED = {}"
    by (simp add: VOWELS_ACCENTED_def)
  ultimately show ?thesis
    using False out by (simp add: g2p_def Let_def)
qed

lemma re_sub_all:
  "(\<And>g. \<forall>c\<in>set g. Q c \<Longrightarrow> \<forall>c\<in>set (repl g). Q c) \<Longrightarrow>
   \<forall>c\<in>set s. Q c \<Longrightarrow> \<forall>c\<in>set (re_sub m repl prev s). Q c"
proof (induction m repl prev s rule: re_sub.induct)
  case (1 m repl prev)
  then show ?case by simp
next
  case (2 m repl prev c cs)
  define n where "n = min (m prev (c # cs)) (length (c # cs))"
  have unf: "re_sub m repl prev (c # cs) =
      (if n = 0 then c # re_sub m repl (Some c) cs
       else repl (take n (c # cs)) @ re_sub m repl (Some (last (take n (c # cs)))) (drop n (c # cs)))"
    by (simp only: re_sub.simps Let_def n_def)
  note r = "2.prems"(1)
  note all = "2.prems"(2)
  show ?case
  proof (cases "n = 0")
    case True
    from all have "\<forall>c\<in>set cs. Q c" by simp
    from "2.IH"(1) [OF n_def True r this] all True show ?thesis
      unfolding unf by simp
  next
    case False
    from all have tk: "\<forall>x\<in>set (take n (c # cs)). Q x"
      by (meson in_set_takeD)
    from all have dr: "\<forall>x\<in>set (drop n (c # cs)). Q x"
      by (meson in_set_dropD)
    from "2.IH"(2) [OF n_def False r dr] r [OF tk]
    have "\<forall>x\<in>set (repl (take n (c # cs))) \<union>
        set (re_sub m repl (Some (last (take n (c # cs)))) (drop n (c # cs))). Q x"
      by blast
    with False show ?thesis
      unfolding unf by simp
  qed
qed

lemma join_all_iff:
  assumes "\<forall>c\<in>set sep. Q c"
  shows "(\<forall>c\<in>set (join sep xs). Q c) \<longleftrightarrow> (\<forall>p\<in>set xs. \<forall>c\<in>set p. Q c)"
  using set_join_subset [of sep xs] set_join_elems [of xs sep] assms by blast

lemma space_punct_whitespace:
  assumes "\<forall>c\<in>set t. py_isspace c"
  shows "space_punct t = []"
proof -
  let ?t1 = "re_sub (m_seq [PUNCT_CHARS] []) (\<lambda>g. [32] @ g @ [32]) None t"
  let ?t2 = "re_sub (m_seq [[46], [46], [46]] []) (\<lambda>g. [32, 46, 32, 46, 32, 46, 32]) None ?t1"
  let ?t3 = "re_sub (m_plus py_isspace) (\<lambda>g. [32]) None ?t2"
  have sp: "py_isspace 32" by (simp add: py_isspace_def)
  have np: "\<not> looking_at [[46], [46], [46]] u" if "\<forall>c\<in>set u. py_isspace c" for u
  proof (cases u)
    case Nil
    then show ?thesis by simp
  next
    case (Cons x xs)
    with that have "py_isspace x" by simp
    then have "x \<noteq> 46" by (auto simp: py_isspace_def)
    with Cons show ?thesis by simp
  qed
  have one: "\<forall>c\<in>set ?t1. py_isspace c"
    by (rule re_sub_all [OF _ assms]) (simp add: sp)
  have two: "re_sub (m_seq [[46], [46], [46]] []) repl prev u = u" if "\<forall>c\<in>set u. py_isspace c" for u repl prev
    using that
  proof (induction u arbitrary: prev)
    case Nil
    then show ?case by simp
  next
    case (Cons x xs)
    from np [OF Cons.prems] have "m_seq [[46], [46], [46]] [] prev (x # xs) = 0"
      by (simp add: m_seq_def)
    with Cons show ?case by simp
  qed
  from two [OF one] have t2: "?t2 = ?t1" .
  have "\<forall>c\<in>set ?t3. py_isspace c"
    unfolding t2 by (rule re_sub_all [OF _ one]) (simp add: sp)
  then show ?thesis
    by (simp add: space_punct_def Let_def strip_ws_Nil_iff)
qed

lemmas g2p_eval_defs =
  g2p_def g2p_tokens_def space_punct_def nfc_ascii_def lower_ascii_def Let_def
  m_seq_def m_seq_end_def m_plus_def at_start_def after_class_def after_not_class_def
  strip_ws_def py_isspace_def PUNCT_CHARS_def PUNCT_SET_def
  map_graphemes_def normalize_word_def NASAL_ASSIMILATION_def rules_before_r_def
  rule_ch_def rule_x_def rule_g_j_def rule_gu_def rule_c_z_qu_def rule_v_def rule_h_def
  rule_enye_def rule_ll_y_def rule_final_n_def rule_r_def placeholder_def
  ALL_VOWELS_def VOWELS_def VOWELS_ACCENTED_def
  add_stress_if_needed_def vowel_groups_def ends_like_penult_last ACCENT_VOWEL_MAP_def
  apply_glides_def GLIDE_MODE_def insert_stress_marker_and_clean_def re_search_def
  strip_accents_def ACUTE_MAP_def slice_def

lemma g2p_loop_total: "\<exists>out. g2p_loop lower toks out0 = Inr out"
  using g2p_loop_invariant [where Q = "\<lambda>p. True" and out = out0 and lower = lower and toks = toks]
  by blast

text \<open>
  Claim C8, as amended.  \<open>g2p\<close> always returns a string, which is either \<open>//\<close> or
  slash, space, a non-empty body, space, slash, where the body is the stripped join of the
  per-token outputs with single spaces.  The result is \<open>//\<close> exactly when the input is
  empty or every per-token output consists of whitespace only (in particular when there is
  no token output at all).  That covers a text that normalizes to nothing and a text of
  whitespace only; it also covers a text such as \<open>h\<close>, whose only word maps to the empty
  phone string.
\<close>

theorem g2p_output_form:
  "\<exists>out. g2p_loop lower (g2p_tokens nfc text) [] = Inr out \<and>
     (g2p nfc lower text = Inr [47, 47] \<or>
      (strip_ws (join [32] out) \<noteq> [] \<and>
       g2p nfc lower text = Inr ([47, 32] @ strip_ws (join [32] out) @ [32, 47]))) \<and>
     (g2p nfc lower text = Inr [47, 47] \<longleftrightarrow>
        text = [] \<or> (\<forall>p\<in>set out. \<forall>c\<in>set p. py_isspace c)) \<and>
     (space_punct (nfc text) = [] \<longrightarrow> g2p nfc lower text = Inr [47, 47]) \<and>
     ((\<forall>c\<in>set (nfc text). py_isspace c) \<longrightarrow> g2p nfc lower text = Inr [47, 47])"
proof -
  from g2p_loop_total obtain out where out: "g2p_loop lower (g2p_tokens nfc text) [] = Inr out"
    by blast
  let ?res = "strip_ws (join [32] out)"
  have sp: "\<forall>c\<in>set [32]. py_isspace c" by (simp add: py_isspace_def)
  have empty: "?res = [] \<longleftrightarrow> (\<forall>p\<in>set out. \<forall>c\<in>set p. py_isspace c)"
    by (simp only: strip_ws_Nil_iff join_all_iff [OF sp])
  have g: "g2p nfc lower text =
      Inr (if text = [] \<or> ?res = [] then [47, 47] else [47, 32] @ ?res @ [32, 47])"
    using out by (simp add: g2p_def Let_def)
  have a: "g2p nfc lower text = Inr [47, 47] \<or>
      (?res \<noteq> [] \<and> g2p nfc lower text = Inr ([47, 32] @ ?res @ [32, 47]))"
    unfolding g by simp
  have b: "g2p nfc lower text = Inr [47, 47] \<longleftrightarrow>
        text = [] \<or> (\<forall>p\<in>set out. \<forall>c\<in>set p. py_isspace c)"
    unfolding g empty [symmetric] by simp
  have c: "g2p nfc lower text = Inr [47, 47]" if "space_punct (nfc text) = []"
  proof -
    from that have "g2p_loop lower (g2p_tokens nfc text) [] = Inr []"
      by (simp add: g2p_tokens_def)
    with out have "out = []" by simp
    with b show ?thesis by simp
  qed
  have d: "g2p nfc lower text = Inr [47, 47]" if "\<forall>c\<in>set (nfc text). py_isspace c"
    using c space_punct_whitespace [OF that] by simp
  from out a b c d show ?thesis by blast
qed

text \<open>
  The silent word \<open>h\<close>, two spaces, and \<open>casa\<close>.
\<close>

theorem g2p_output_form_witness:
  "g2p nfc_ascii lower_ascii [104] = Inr [47, 47] \<and>
   g2p nfc_ascii lower_ascii [32, 32] = Inr [47, 47] \<and>
   g2p nfc_ascii lower_ascii [99, 97, 115, 97] = Inr [47, 32, 107, 712, 97, 115, 97, 32, 47]"
proof -
  have l1: "g2p_loop lower_ascii (g2p_tokens nfc_ascii [104]) [] = Inr [[]]"
    by (simp add: g2p_eval_defs)
  have l2: "g2p_loop lower_ascii (g2p_tokens nfc_ascii [99, 97, 115, 97]) [] = Inr [[107, 712, 97, 115, 97]]"
    by (simp add: g2p_eval_defs)
  have a: "g2p nfc_ascii lower_ascii [104] = Inr [47, 47]"
    using g2p_output_form [of lower_ascii nfc_ascii "[104]"] by (simp add: l1)
  have ws: "\<forall>c\<in>set (nfc_ascii [32, 32]). py_isspace c"
    by (simp add: nfc_ascii_def py_isspace_def)
  have b: "g2p nfc_ascii lower_ascii [32, 32] = Inr [47, 47]"
    using g2p_output_form [of lower_ascii nfc_ascii "[32, 32]"] ws by blast
  have c: "g2p nfc_ascii lower_ascii [99, 97, 115, 97] = Inr [47, 32, 107, 712, 97, 115, 97, 32, 47]"
    using g2p_output_form [of lower_ascii nfc_ascii "[99, 97, 115, 97]"]
    by (auto simp: l2 strip_ws_def py_isspace_def)
  from a b c show ?thesis by simp
qed

text \<open>
  Claim C8 as stated fails: the input \<open>h\<close> is not empty and does not normalize to nothing
  (the normalizer returns \<open>h\<close>), yet the transcription is \<open>//\<close>, because the silent \<open>h\<close>
  is deleted by the grapheme mapper.
\<close>

theorem g2p_silent_word_counterexample:
  "g2p nfc_ascii lower_ascii [104] = Inr [47, 47] \<and> [104] \<noteq> ([] :: ustring) \<and>
   space_punct (nfc_ascii [104]) = [104]"
  by (simp add: g2p_eval_defs)

section \<open>Properties of the grapheme mapper\<close>

lemma str_replace_all:
  "\<forall>c\<in>set new. Q c \<Longrightarrow> \<forall>c\<in>set s. Q c \<Longrightarrow> \<forall>c\<in>set (str_replace old new s). Q c"
proof (induction old new s rule: str_replace.induct)
  case (1 old new)
  then show ?case by simp
next
  case (2 old new c cs)
  from "2.prems" have cs: "\<forall>x\<in>set cs. Q x" and c: "Q c" by simp_all
  show ?case
  proof (cases "old = []")
    case True
    with "2.IH"(1) [OF True "2.prems"(1) cs] "2.prems"(1) c show ?thesis
      by auto
  next
    case ne: False
    show ?thesis
    proof (cases "prefix old (c # cs)")
      case True
      from "2.prems"(2) have "\<forall>x\<in>set (drop (length old) (c # cs)). Q x"
        by (meson in_set_dropD)
      from "2.IH"(2) [OF ne True "2.prems"(1) this] "2.prems"(1) ne True show ?thesis
        by auto
    next
      case False
      with "2.IH"(3) [OF ne False "2.prems"(1) cs] c ne show ?thesis
        by auto
    qed
  qed
qed

lemma re_sub_m_seq_prev:
  "re_sub (m_seq A B) repl (Some p) s = re_sub (m_seq A B) repl None s"
proof (induction s arbitrary: p rule: length_induct)
  case (1 s)
  show ?case
  proof (cases s)
    case Nil
    then show ?thesis by simp
  next
    case (Cons c cs)
    define n where "n = min (m_seq A B None (c # cs)) (length (c # cs))"
    have n': "min (m_seq A B (Some p) (c # cs)) (length (c # cs)) = n"
      by (simp add: n_def m_seq_def)
    have u1: "re_sub (m_seq A B) repl (Some p) (c # cs) =
        (if n = 0 then c # re_sub (m_seq A B) repl (Some c) cs
         else repl (take n (c # cs)) @
           re_sub (m_seq A B) repl (Some (last (take n (c # cs)))) (drop n (c # cs)))"
      by (simp only: re_sub.simps Let_def n')
    have u2: "re_sub (m_seq A B) repl None (c # cs) =
        (if n = 0 then c # re_sub (m_seq A B) repl (Some c) cs
         else repl (take n (c # cs)) @
           re_sub (m_seq A B) repl (Some (last (take n (c # cs)))) (drop n (c # cs)))"
      by (simp only: re_sub.simps Let_def n_def)
    from u1 u2 Cons show ?thesis by simp
  qed
qed

text \<open>The passes of \<open>rule_r\<close> on a string whose first characters are known.\<close>

lemma p3_Nil: "re_sub (m_seq [[108, 110, 115], [114]] []) repl None [] = []"
  by simp

lemma p3_match:
  "x \<in> {108, 110, 115} \<Longrightarrow>
   re_sub (m_seq [[108, 110, 115], [114]] []) repl None (x # 114 # u) =
   repl [x, 114] @ re_sub (m_seq [[108, 110, 115], [114]] []) repl None u"
  by (auto simp: m_seq_def re_sub_m_seq_prev)

lemma p3_other:
  "x \<notin> {108, 110, 115} \<Longrightarrow>
   re_sub (m_seq [[108, 110, 115], [114]] []) repl None (x # u) =
   x # re_sub (m_seq [[108, 110, 115], [114]] []) repl None u"
  by (auto simp: m_seq_def re_sub_m_seq_prev)

lemma p3_not_r:
  "y \<noteq> 114 \<Longrightarrow>
   re_sub (m_seq [[108, 110, 115], [114]] []) repl None (x # y # u) =
   x # re_sub (m_seq [[108, 110, 115], [114]] []) repl None (y # u)"
  by (auto simp: m_seq_def re_sub_m_seq_prev)

lemma p3_single:
  "re_sub (m_seq [[108, 110, 115], [114]] []) repl None [x] = [x]"
  by (auto simp: m_seq_def)

lemma p1_rr: "str_replace [114, 114] new (114 # 114 # cs) = new @ str_replace [114, 114] new cs"
  by simp

lemma p1_other: "c \<noteq> 114 \<Longrightarrow> str_replace [114, 114] new (c # cs) = c # str_replace [114, 114] new cs"
  by simp

lemma p1_r_other:
  "c' \<noteq> 114 \<Longrightarrow> str_replace [114, 114] new (114 # c' # cs) = 114 # c' # str_replace [114, 114] new cs"
  by simp

lemma p1_Nil: "str_replace [114, 114] new [] = []"
  by simp

lemma p4_Nil: "tap_pass [] = []"
  by simp

lemma p5_Nil: "unmark_pass [] = []"
  by (simp add: placeholder_def)

lemma p1_single: "str_replace [114, 114] new [c] = [c]"
  by simp

lemma p4_Cons:
  "tap_pass (c # cs) = (if c = 114 then 638 else c) # tap_pass cs"
  by simp

lemma p5_placeholder:
  "unmark_pass (placeholder @ u) = 114 # unmark_pass u"
  by (simp add: placeholder_def)

lemma p5_other:
  "c \<noteq> 82 \<Longrightarrow> unmark_pass (c # u) = c # unmark_pass u"
  by (simp add: placeholder_def)

lemma p4_placeholder:
  "tap_pass (placeholder @ u) = placeholder @ tap_pass u"
  by (simp add: placeholder_def)

lemma p4_placeholder0: "tap_pass placeholder = placeholder"
  by (simp add: placeholder_def)

lemma p5_placeholder0: "unmark_pass placeholder = [114]"
  by (simp add: placeholder_def)

lemma p3_before_placeholder:
  "re_sub (m_seq [[108, 110, 115], [114]] []) repl None (x # placeholder @ u) =
   x # placeholder @ re_sub (m_seq [[108, 110, 115], [114]] []) repl None u"
  by (simp add: placeholder_def m_seq_def re_sub_m_seq_prev)

lemma p3_placeholder:
  "re_sub (m_seq [[108, 110, 115], [114]] []) repl None (placeholder @ u) =
   placeholder @ re_sub (m_seq [[108, 110, 115], [114]] []) repl None u"
  by (simp add: placeholder_def m_seq_def re_sub_m_seq_prev)

lemma p3_placeholder0:
  "re_sub (m_seq [[108, 110, 115], [114]] []) repl None placeholder = placeholder"
  by (simp add: placeholder_def m_seq_def re_sub_m_seq_prev)

lemmas rule_r_passes =
  p1_Nil p1_rr p1_other p1_r_other p1_single p3_Nil p3_match p3_other p3_not_r
  p3_single p3_placeholder p4_Nil p4_Cons p4_placeholder p5_Nil p5_placeholder p5_other
  p4_placeholder0 p5_placeholder0 p3_before_placeholder p3_placeholder0

lemma rhotic_passes:
  "82 \<notin> set w \<Longrightarrow>
   unmark_pass (tap_pass (cluster_pass (rr_pass w))) = rhotic_spec False w \<and>
   (\<forall>x. x \<noteq> 114 \<longrightarrow> x \<noteq> 82 \<longrightarrow>
      unmark_pass (tap_pass (cluster_pass (rr_pass (x # w)))) = x # rhotic_spec (x \<in> {108, 110, 115}) w)"
proof (induction w rule: length_induct)
  case (1 w)
  note IH = "1.IH" [rule_format]
  note simps = rule_r_passes
  note [simp del] = re_sub.simps str_replace.simps
  show ?case
  proof (cases w)
    case Nil
    then show ?thesis
      by (auto simp: simps)
  next
    case c: (Cons c u)
    with "1.prems" have c82: "c \<noteq> 82" and u82: "82 \<notin> set u" by auto
    show ?thesis
    proof (cases u)
      case Nil
      with c c82 show ?thesis
        by (auto simp: simps)
    next
      case u: (Cons c' cs)
      with u82 have c'82: "c' \<noteq> 82" and cs82: "82 \<notin> set cs" by auto
      have w: "w = c # c' # cs" using c u by simp
      show ?thesis
      proof (cases "c = 114")
        case r: True
        show ?thesis
        proof (cases "c' = 114")
          case True
          have "length cs < length w" using w by simp
          from IH [OF this cs82] have a: "unmark_pass (tap_pass (cluster_pass (rr_pass cs))) = rhotic_spec False cs"
            by blast
          from a r True show ?thesis
            unfolding w by (auto simp: simps)
        next
          case False
          have "length u < length w" using c by simp
          from IH [OF this u82] have a: "unmark_pass (tap_pass (cluster_pass (rr_pass u))) = rhotic_spec False u"
            by blast
          have pu: "rr_pass u = c' # rr_pass cs"
            unfolding u using False by (simp add: simps)
          from a r False c'82 show ?thesis
            unfolding w u [symmetric] using pu unfolding u
            by (auto simp: simps)
        qed
      next
        case nr: False
        have "length u < length w" using c by simp
        from IH [OF this u82] nr c82
        have b: "unmark_pass (tap_pass (cluster_pass (rr_pass (c # u)))) = c # rhotic_spec (c \<in> {108, 110, 115}) u"
          by blast
        have pu: "rr_pass (c # u) = c # rr_pass u"
          using nr by (simp add: simps)
        have a: "unmark_pass (tap_pass (cluster_pass (rr_pass w))) = rhotic_spec False w"
          unfolding c using b nr unfolding u by simp
        have "unmark_pass (tap_pass (cluster_pass (rr_pass (x # w)))) = x # rhotic_spec (x \<in> {108, 110, 115}) w"
          if x: "x \<noteq> 114" "x \<noteq> 82" for x
        proof -
          have "unmark_pass (tap_pass (cluster_pass (rr_pass (x # w)))) = x # unmark_pass (tap_pass (cluster_pass (rr_pass w)))"
            unfolding c using x nr by (simp add: simps)
          with a show ?thesis
            unfolding c u using nr by simp
        qed
        with a show ?thesis by blast
      qed
    qed
  qed
qed

lemma rule_r_unfold:
  "rule_r w =
     unmark_pass (tap_pass
       (cluster_pass (if prefix [114] (rr_pass w) then placeholder @ drop 1 (rr_pass w) else rr_pass w)))"
  by (simp add: rule_r_def Let_def)

lemma rule_r_spec:
  assumes "82 \<notin> set w"
  shows "rule_r w = rhotic_spec True w"
proof -
  note simps = rule_r_passes
  note [simp del] = re_sub.simps str_replace.simps
  show ?thesis
  proof (cases w)
    case Nil
    then show ?thesis
      by (simp add: rule_r_unfold simps)
  next
    case c: (Cons c u)
    with assms have c82: "c \<noteq> 82" and u82: "82 \<notin> set u" by auto
    show ?thesis
    proof (cases "c = 114")
      case nr: False
      have "prefix [114] (rr_pass w) = False"
        unfolding c using nr by (simp add: simps)
      then have "rule_r w = unmark_pass (tap_pass (cluster_pass (rr_pass w)))"
        by (simp only: rule_r_unfold if_False)
      also from rhotic_passes [OF u82] nr c82
      have "unmark_pass (tap_pass (cluster_pass (rr_pass (c # u)))) = c # rhotic_spec (c \<in> {108, 110, 115}) u"
        by blast
      then have "unmark_pass (tap_pass (cluster_pass (rr_pass w))) = rhotic_spec True w"
        unfolding c using nr by (cases u) simp_all
      finally show ?thesis .
    next
      case r: True
      show ?thesis
      proof (cases u)
        case Nil
        with c r show ?thesis
          by (simp add: rule_r_unfold simps)
      next
        case u: (Cons c' cs)
        with u82 have cs82: "82 \<notin> set cs" by simp
        show ?thesis
        proof (cases "c' = 114")
          case True
          from rhotic_passes [OF cs82] have a: "unmark_pass (tap_pass (cluster_pass (rr_pass cs))) = rhotic_spec False cs"
            by blast
          have p1: "rr_pass w = placeholder @ rr_pass cs"
            unfolding c u using r True by (simp add: simps)
          have np: "prefix [114] (placeholder @ rr_pass cs) = False"
            by (simp add: placeholder_def)
          have "rule_r w = unmark_pass (tap_pass
              (cluster_pass (placeholder @ rr_pass cs)))"
            unfolding rule_r_unfold p1 np by simp
          also have "\<dots> = 114 # unmark_pass (tap_pass (cluster_pass (rr_pass cs)))"
            by (simp add: simps)
          finally show ?thesis
            using a c u r True by simp
        next
          case False
          from rhotic_passes [OF u82] have a: "unmark_pass (tap_pass (cluster_pass (rr_pass u))) = rhotic_spec False u"
            by blast
          have p1: "rr_pass w = 114 # rr_pass u"
            unfolding c u using r False by (simp add: simps)
          have "rule_r w = unmark_pass (tap_pass
              (cluster_pass (placeholder @ rr_pass u)))"
            unfolding rule_r_unfold p1 by simp
          also have "\<dots> = 114 # unmark_pass (tap_pass (cluster_pass (rr_pass u)))"
            by (simp add: simps)
          finally show ?thesis
            using a c u r False by simp
        qed
      qed
    qed
  qed
qed

lemma rule_x_all:
  assumes "Q 115" "Q 107" "\<forall>c\<in>set w. Q c"
  shows "\<forall>c\<in>set (rule_x w). Q c"
proof -
  have "\<forall>c\<in>set (if prefix [120] w then [115] @ drop 1 w else w). Q c"
    using assms by (auto dest: in_set_dropD)
  then show ?thesis
    unfolding rule_x_def Let_def using assms(1,2) by (intro str_replace_all) simp_all
qed

lemma rule_final_n_all:
  assumes "Q 331" "\<forall>c\<in>set w. Q c"
  shows "\<forall>c\<in>set (rule_final_n w). Q c"
  using assms by (auto simp: rule_final_n_def dest: in_set_butlastD)

lemma rules_before_r_all:
  assumes ins: "\<forall>c\<in>{679, 115, 107, 120, 103, 119, 98, 106, 626, 669, 331}. Q c"
    and w: "\<forall>c\<in>set w. Q c"
  shows "\<forall>c\<in>set (rules_before_r w). Q c"
proof -
  have 1: "\<forall>c\<in>set (rule_ch w). Q c"
    unfolding rule_ch_def using ins w by (intro str_replace_all) simp_all
  have 2: "\<forall>c\<in>set (rule_x (rule_ch w)). Q c"
    using ins 1 by (intro rule_x_all) simp_all
  have 3: "\<forall>c\<in>set (rule_g_j (rule_x (rule_ch w))). Q c"
    unfolding rule_g_j_def Let_def using ins 2
    by (intro str_replace_all re_sub_all) simp_all
  have 4: "\<forall>c\<in>set (rule_gu (rule_g_j (rule_x (rule_ch w)))). Q c"
    unfolding rule_gu_def Let_def using ins 3
    by (intro str_replace_all re_sub_all) simp_all
  have 5: "\<forall>c\<in>set (rule_c_z_qu (rule_gu (rule_g_j (rule_x (rule_ch w))))). Q c"
    unfolding rule_c_z_qu_def Let_def using ins 4
    by (intro str_replace_all re_sub_all) simp_all
  have 6: "\<forall>c\<in>set (rule_v (rule_c_z_qu (rule_gu (rule_g_j (rule_x (rule_ch w)))))). Q c"
    unfolding rule_v_def using ins 5 by (intro str_replace_all) simp_all
  have 7: "\<forall>c\<in>set (rule_h (rule_v (rule_c_z_qu (rule_gu (rule_g_j (rule_x (rule_ch w))))))). Q c"
    unfolding rule_h_def Let_def using ins 6
    by (intro str_replace_all re_sub_all) simp_all
  have 8: "\<forall>c\<in>set (rule_enye (rule_h (rule_v (rule_c_z_qu (rule_gu (rule_g_j (rule_x (rule_ch w)))))))). Q c"
    unfolding rule_enye_def using ins 7 by (intro str_replace_all) simp_all
  have 9: "\<forall>c\<in>set (rule_ll_y (rule_enye (rule_h (rule_v (rule_c_z_qu (rule_gu (rule_g_j
      (rule_x (rule_ch w))))))))). Q c"
    unfolding rule_ll_y_def Let_def using ins 8
    by (intro str_replace_all re_sub_all) simp_all
  show ?thesis
    unfolding rules_before_r_def using ins 9 by (intro rule_final_n_all) simp_all
qed

lemma rule_r_all:
  assumes ins: "Q 82" "Q 638" "Q 114" and w: "\<forall>c\<in>set w. Q c"
  shows "\<forall>c\<in>set (rule_r w). Q c"
proof -
  have 1: "\<forall>c\<in>set (rr_pass w). Q c"
    using ins w by (intro str_replace_all) (simp_all add: placeholder_def)
  have 2: "\<forall>c\<in>set (if prefix [114] (rr_pass w)
      then placeholder @ drop 1 (rr_pass w)
      else rr_pass w). Q c"
    using 1 ins by (auto simp: placeholder_def dest: in_set_dropD)
  have g: "\<forall>c\<in>set (take 1 g @ placeholder). Q c" if "\<forall>c\<in>set g. Q c" for g
    using that ins by (auto simp: placeholder_def dest: in_set_takeD)
  show ?thesis
    unfolding rule_r_def Let_def using ins 2 g
    by (intro str_replace_all re_sub_all) (simp_all add: placeholder_def)
qed

lemma map_graphemes_unfold:
  "map_graphemes lower word =
     (if lower word = [121] then [105] else rule_r (rules_before_r (lower word)))"
  by (simp add: map_graphemes_def normalize_word_def NASAL_ASSIMILATION_def Let_def)

text \<open>
  Claim C7, as amended.  On a string without the capital \<open>R\<close> (82) of the placeholder,
  the five statements of the rhotic rule compute the one-pass classification
  \<open>rhotic_spec\<close>: each pair \<open>rr\<close>, an \<open>r\<close> at the start and an \<open>r\<close> just after \<open>l\<close>, \<open>n\<close>
  or \<open>s\<close> become the trill \<open>r\<close>, any other \<open>r\<close> the tap; the blanket substitution of
  \<open>r\<close> by the tap does not disturb the classification.  For a word whose lowercase form
  has no capital \<open>R\<close>, \<open>map_graphemes\<close> applies this classification to the string left by
  the earlier rules of the mapper, not to the letters of the word itself (the bare word
  \<open>y\<close> apart, which is mapped to \<open>i\<close>).
\<close>

theorem rhotic_classification:
  "(82 \<notin> set w \<longrightarrow> rule_r w = rhotic_spec True w) \<and>
   (82 \<notin> set (lower word) \<longrightarrow>
      map_graphemes lower word =
        (if lower word = [121] then [105]
         else rhotic_spec True (rules_before_r (lower word))))"
proof (intro conjI impI)
  assume "82 \<notin> set w"
  then show "rule_r w = rhotic_spec True w"
    by (rule rule_r_spec)
next
  assume "82 \<notin> set (lower word)"
  then have "\<forall>c\<in>set (lower word). c \<noteq> 82" by blast
  then have "\<forall>c\<in>set (rules_before_r (lower word)). c \<noteq> 82"
    by (intro rules_before_r_all) simp_all
  then have "82 \<notin> set (rules_before_r (lower word))" by blast
  then show "map_graphemes lower word =
        (if lower word = [121] then [105]
         else rhotic_spec True (rules_before_r (lower word)))"
    by (simp add: map_graphemes_unfold rule_r_spec)
qed

text \<open>
  \<open>pero\<close> gets the tap; in \<open>honra\<close> the \<open>r\<close> follows \<open>n\<close> and is strong; \<open>raro\<close> has a
  strong initial \<open>r\<close> and a tap; \<open>karro\<close> has one strong \<open>r\<close> for the pair.
\<close>

theorem rhotic_classification_witness:
  "map_graphemes lower_ascii [112, 101, 114, 111] = [112, 101, 638, 111] \<and>
   map_graphemes lower_ascii [104, 111, 110, 114, 97] = [111, 110, 114, 97] \<and>
   rule_r [114, 97, 114, 111] = [114, 97, 638, 111] \<and>
   rule_r [107, 97, 114, 114, 111] = [107, 97, 114, 111]"
proof -
  have a: "map_graphemes lower_ascii [112, 101, 114, 111] = [112, 101, 638, 111]"
    using rhotic_classification [of _ lower_ascii "[112, 101, 114, 111]"]
    by (simp add: g2p_eval_defs)
  have b: "map_graphemes lower_ascii [104, 111, 110, 114, 97] = [111, 110, 114, 97]"
    using rhotic_classification [of _ lower_ascii "[104, 111, 110, 114, 97]"]
    by (simp add: g2p_eval_defs)
  have c: "rule_r [114, 97, 114, 111] = [114, 97, 638, 111]"
    using rhotic_classification [of "[114, 97, 114, 111]"] by simp
  have d: "rule_r [107, 97, 114, 114, 111] = [107, 97, 114, 111]"
    using rhotic_classification [of "[107, 97, 114, 114, 111]"] by simp
  from a b c d show ?thesis by simp
qed

text \<open>
  Claim C7 as stated fails.  In the lowercase word \<open>ezra\<close> the \<open>r\<close> is not initial, not
  doubled and preceded by \<open>z\<close>, yet it is mapped to the trill (114), not the tap (638):
  the earlier rule has rewritten \<open>z\<close> to \<open>s\<close>.  In \<open>hra\<close> the silent \<open>h\<close> is deleted
  first, so the \<open>r\<close> has become initial and is mapped to the trill.
\<close>

theorem rhotic_after_rewritten_letter_counterexample:
  "lower_ascii [101, 122, 114, 97] = [101, 122, 114, 97] \<and>
   map_graphemes lower_ascii [101, 122, 114, 97] = [101, 115, 114, 97] \<and>
   lower_ascii [104, 114, 97] = [104, 114, 97] \<and>
   map_graphemes lower_ascii [104, 114, 97] = [114, 97]"
  by (simp add: g2p_eval_defs)

section \<open>Punctuation isolation\<close>

lemma space_not_punct: "32 \<notin> PUNCT_SET"
  by (simp add: PUNCT_SET_def PUNCT_CHARS_def)

lemma punct_not_space: "c \<in> PUNCT_SET \<Longrightarrow> \<not> py_isspace c"
  by (auto simp: PUNCT_SET_def PUNCT_CHARS_def py_isspace_def)

lemma isolated_mono: "isolated a s \<Longrightarrow> isolated True s"
  by (cases s) auto

lemma isolated_free: "set s \<inter> PUNCT_SET = {} \<Longrightarrow> isolated ok s"
  by (induction s arbitrary: ok) auto

lemma isolated_head_free: "s \<noteq> [] \<Longrightarrow> hd s \<notin> PUNCT_SET \<Longrightarrow> isolated a s = isolated b s"
  by (cases s) auto

lemma isolated_prefix: "isolated ok (xs @ ys) \<Longrightarrow> isolated ok xs"
proof (induction xs arbitrary: ok)
  case Nil
  then show ?case by simp
next
  case (Cons x xs)
  show ?case
  proof (cases "x \<in> PUNCT_SET")
    case True
    with Cons.prems have ok: ok and nx: "xs @ ys = [] \<or> hd (xs @ ys) = 32"
      and rest: "isolated False (xs @ ys)"
      by auto
    from nx have "xs = [] \<or> hd xs = 32"
      by (cases xs) auto
    with True ok Cons.IH [OF rest] show ?thesis by simp
  next
    case False
    with Cons.prems have "isolated (x = 32) (xs @ ys)" by simp
    from Cons.IH [OF this] False show ?thesis by simp
  qed
qed

lemma isolated_append:
  "isolated ok xs \<Longrightarrow> ys \<noteq> [] \<Longrightarrow> hd ys = 32 \<Longrightarrow> isolated True ys \<Longrightarrow> isolated ok (xs @ ys)"
proof (induction xs arbitrary: ok)
  case Nil
  then show ?case
    using isolated_head_free [of ys True ok] space_not_punct by simp
next
  case (Cons x xs)
  show ?case
  proof (cases "x \<in> PUNCT_SET")
    case True
    with Cons.prems have ok: ok and nx: "xs = [] \<or> hd xs = 32" and rest: "isolated False xs"
      by auto
    from nx Cons.prems(2,3) have "hd (xs @ ys) = 32"
      by (cases xs) auto
    with True ok Cons.IH [OF rest Cons.prems(2-4)] Cons.prems(2) show ?thesis by simp
  next
    case False
    with Cons.prems have "isolated (x = 32) xs" by simp
    from Cons.IH [OF this Cons.prems(2-4)] False show ?thesis by simp
  qed
qed

lemma isolated_nth:
  "isolated ok s \<Longrightarrow> i < length s \<Longrightarrow> s ! i \<in> PUNCT_SET \<Longrightarrow>
   (if i = 0 then ok else s ! (i - 1) = 32) \<and> (i + 1 < length s \<longrightarrow> s ! (i + 1) = 32)"
proof (induction s arbitrary: ok i)
  case Nil
  then show ?case by simp
next
  case (Cons c cs)
  show ?case
  proof (cases i)
    case 0
    with Cons.prems have "c \<in> PUNCT_SET" by simp
    with Cons.prems(1) have "ok" "cs = [] \<or> hd cs = 32" by auto
    with 0 show ?thesis by (cases cs) auto
  next
    case (Suc j)
    with Cons.prems have j: "j < length cs" "cs ! j \<in> PUNCT_SET" by auto
    show ?thesis
    proof (cases "c \<in> PUNCT_SET")
      case True
      with Cons.prems(1) have "isolated False cs" by simp
      from Cons.IH [OF this j] have "j \<noteq> 0" "cs ! (j - 1) = 32" "j + 1 < length cs \<longrightarrow> cs ! (j + 1) = 32"
        by (auto split: if_splits)
      with Suc show ?thesis by (cases j) auto
    next
      case False
      with Cons.prems(1) have "isolated (c = 32) cs" by simp
      from Cons.IH [OF this j]
      have "if j = 0 then c = 32 else cs ! (j - 1) = 32" "j + 1 < length cs \<longrightarrow> cs ! (j + 1) = 32"
        by auto
      with Suc show ?thesis by (cases j) auto
    qed
  qed
qed

lemma isolated_dropWhile_space:
  "isolated ok s \<Longrightarrow> isolated True (dropWhile py_isspace s)"
proof (induction s arbitrary: ok)
  case Nil
  then show ?case by simp
next
  case (Cons c cs)
  show ?case
  proof (cases "py_isspace c")
    case True
    then have "c \<notin> PUNCT_SET" using punct_not_space by blast
    with Cons.prems have "isolated (c = 32) cs" by simp
    from Cons.IH [OF this] True show ?thesis by simp
  next
    case False
    with Cons.prems isolated_mono show ?thesis by simp
  qed
qed

lemma isolated_strip_ws: "isolated ok s \<Longrightarrow> isolated True (strip_ws s)"
proof -
  assume "isolated ok s"
  then have d: "isolated True (dropWhile py_isspace s)"
    by (rule isolated_dropWhile_space)
  let ?t = "dropWhile py_isspace s"
  have "?t = rev (dropWhile py_isspace (rev ?t)) @ rev (takeWhile py_isspace (rev ?t))"
    by (metis rev_append rev_rev_ident takeWhile_dropWhile_id)
  with d have "isolated True (rev (dropWhile py_isspace (rev ?t)) @ rev (takeWhile py_isspace (rev ?t)))"
    by simp
  then have "isolated True (rev (dropWhile py_isspace (rev ?t)))"
    by (rule isolated_prefix)
  then show ?thesis
    by (simp add: strip_ws_def)
qed

lemma punct_sub_isolated:
  "isolated ok (re_sub (m_seq [PUNCT_CHARS] []) (\<lambda>g. [32] @ g @ [32]) prev s)"
proof (induction s arbitrary: ok prev)
  case Nil
  then show ?case by simp
next
  case (Cons c cs)
  show ?case
  proof (cases "c \<in> set PUNCT_CHARS")
    case True
    then have "c \<in> PUNCT_SET" by (simp add: PUNCT_SET_def)
    with True Cons [of True "Some c"] space_not_punct show ?thesis
      by (simp add: m_seq_def)
  next
    case False
    then have "c \<notin> PUNCT_SET" by (simp add: PUNCT_SET_def)
    with False Cons [of "c = 32" "Some c"] show ?thesis
      by (simp add: m_seq_def)
  qed
qed

lemma ellipsis_sub_isolated:
  "isolated ok s \<Longrightarrow> re_sub (m_seq [[46], [46], [46]] []) repl prev s = s"
proof (induction s arbitrary: ok prev)
  case Nil
  then show ?case by simp
next
  case (Cons c cs)
  have dot: "46 \<in> PUNCT_SET" by (simp add: PUNCT_SET_def PUNCT_CHARS_def)
  have nomatch: "\<not> looking_at [[46], [46], [46]] (c # cs)"
  proof
    assume la: "looking_at [[46], [46], [46]] (c # cs)"
    then have c: "c = 46" by simp
    with la obtain cs' where cs: "cs = 46 # cs'" by (cases cs) auto
    from Cons.prems c dot have "cs = [] \<or> hd cs = 32" by simp
    with cs show False by simp
  qed
  from Cons.prems have "isolated False cs \<or> isolated (c = 32) cs"
    by (auto split: if_splits)
  then have "re_sub (m_seq [[46], [46], [46]] []) repl (Some c) cs = cs"
    using Cons.IH by blast
  moreover from nomatch have "m_seq [[46], [46], [46]] [] prev (c # cs) = 0"
    by (simp add: m_seq_def)
  ultimately show ?case
    by simp
qed

lemma collapse_head:
  "cs \<noteq> [] \<Longrightarrow> py_isspace (hd cs) \<Longrightarrow>
   \<exists>rest. re_sub (m_plus py_isspace) (\<lambda>g. [32]) prev cs = 32 # rest"
  by (cases cs) (auto simp: m_plus_def Let_def)

lemma collapse_isolated:
  "isolated ok s \<Longrightarrow> isolated ok (re_sub (m_plus py_isspace) (\<lambda>g. [32]) prev s)"
proof (induction "m_plus py_isspace" "\<lambda>g :: ustring. [32 :: nat]" prev s arbitrary: ok
    rule: re_sub.induct)
  case (1 prev)
  then show ?case by simp
next
  case (2 prev c cs)
  define n where "n = min (m_plus py_isspace prev (c # cs)) (length (c # cs))"
  have unf: "re_sub (m_plus py_isspace) (\<lambda>g. [32]) prev (c # cs) =
      (if n = 0 then c # re_sub (m_plus py_isspace) (\<lambda>g. [32]) (Some c) cs
       else [32] @ re_sub (m_plus py_isspace) (\<lambda>g. [32]) (Some (last (take n (c # cs)))) (drop n (c # cs)))"
    by (simp only: re_sub.simps Let_def n_def)
  have n_eq: "n = length (takeWhile py_isspace (c # cs))"
    using length_takeWhile_le [of py_isspace "c # cs"] by (simp add: n_def m_plus_def)
  show ?case
  proof (cases "n = 0")
    case n0: True
    then have nws: "\<not> py_isspace c" by (auto simp: n_eq split: if_splits)
    then have c32: "c \<noteq> 32" by (auto simp: py_isspace_def)
    show ?thesis
    proof (cases "c \<in> PUNCT_SET")
      case True
      with "2.prems" have ok: ok and nx: "cs = [] \<or> hd cs = 32" and rest: "isolated False cs"
        by auto
      have r: "isolated False (re_sub (m_plus py_isspace) (\<lambda>g. [32]) (Some c) cs)"
        using "2.hyps"(1) [OF n_def n0 rest] .
      have nx': "re_sub (m_plus py_isspace) (\<lambda>g. [32]) (Some c) cs = [] \<or>
          hd (re_sub (m_plus py_isspace) (\<lambda>g. [32]) (Some c) cs) = 32"
      proof (cases "cs = []")
        case True
        then show ?thesis by simp
      next
        case False
        with nx have "py_isspace (hd cs)" by (simp add: py_isspace_def)
        from collapse_head [OF False this, of "Some c"] show ?thesis by auto
      qed
      from True ok r nx' n0 show ?thesis
        unfolding unf by simp
    next
      case False
      with "2.prems" c32 have "isolated False cs" by simp
      from "2.hyps"(1) [OF n_def n0 this] False c32 n0 show ?thesis
        unfolding unf by simp
    qed
  next
    case False
    then have ws: "py_isspace c" by (auto simp: n_eq split: if_splits)
    then have np: "c \<notin> PUNCT_SET" using punct_not_space by blast
    have dr: "drop n (c # cs) = dropWhile py_isspace (c # cs)"
      unfolding n_eq by (simp only: dropWhile_eq_drop)
    from "2.prems" have "isolated True (dropWhile py_isspace (c # cs))"
      by (rule isolated_dropWhile_space)
    then have "isolated True (drop n (c # cs))"
      by (simp only: dr)
    from "2.hyps"(2) [OF n_def False this] False space_not_punct show ?thesis
      unfolding unf by simp
  qed
qed

lemma space_punct_isolated: "isolated True (space_punct t)"
proof -
  let ?t1 = "re_sub (m_seq [PUNCT_CHARS] []) (\<lambda>g. [32] @ g @ [32]) None t"
  have 1: "isolated True ?t1"
    by (rule punct_sub_isolated)
  then have 2: "re_sub (m_seq [[46], [46], [46]] []) (\<lambda>g. [32, 46, 32, 46, 32, 46, 32]) None ?t1 = ?t1"
    by (rule ellipsis_sub_isolated)
  from 1 have "isolated True (re_sub (m_plus py_isspace) (\<lambda>g. [32]) None ?t1)"
    by (rule collapse_isolated)
  then have "isolated True (strip_ws (re_sub (m_plus py_isspace) (\<lambda>g. [32]) None ?t1))"
    by (rule isolated_strip_ws)
  then show ?thesis
    by (simp only: space_punct_def Let_def 2)
qed

lemma split_sep_nonempty: "split_sep sep s \<noteq> []"
  by (induction s) (auto split: list.splits)

lemma split_sep_Cons:
  "c \<noteq> sep \<Longrightarrow> split_sep sep (c # cs) = (c # hd (split_sep sep cs)) # tl (split_sep sep cs)"
  using split_sep_nonempty [of sep cs] by (cases "split_sep sep cs") auto

lemma split_sep_hd_empty: "cs = [] \<or> hd cs = sep \<Longrightarrow> hd (split_sep sep cs) = []"
  by (cases cs) auto

lemma split_isolated_tokens:
  "isolated ok s \<Longrightarrow>
   (\<forall>tok\<in>set (split_sep 32 s). set tok \<inter> PUNCT_SET = {} \<or> (\<exists>c\<in>PUNCT_SET. tok = [c])) \<and>
   (\<not> ok \<longrightarrow> set (hd (split_sep 32 s)) \<inter> PUNCT_SET = {})"
proof (induction s arbitrary: ok)
  case Nil
  then show ?case by simp
next
  case (Cons c cs)
  let ?K = "\<lambda>tok. set tok \<inter> PUNCT_SET = {} \<or> (\<exists>c\<in>PUNCT_SET. tok = [c])"
  show ?case
  proof (cases "c = 32")
    case True
    with Cons.prems space_not_punct have "isolated True cs" by simp
    from Cons.IH [OF this] True show ?thesis by simp
  next
    case ns: False
    have tl_sub: "set (tl (split_sep 32 cs)) \<subseteq> set (split_sep 32 cs)"
      by (metis list.set_sel(2) split_sep_nonempty subsetI)
    show ?thesis
    proof (cases "c \<in> PUNCT_SET")
      case True
      with Cons.prems have ok: ok and nx: "cs = [] \<or> hd cs = 32" and rest: "isolated False cs"
        by auto
      from nx have h: "hd (split_sep 32 cs) = []"
        by (rule split_sep_hd_empty)
      have first: "split_sep 32 (c # cs) = [c] # tl (split_sep 32 cs)"
        by (simp only: split_sep_Cons [OF ns] h)
      from Cons.IH [OF rest] tl_sub have "\<forall>tok\<in>set (tl (split_sep 32 cs)). ?K tok"
        by blast
      with first True ok show ?thesis by auto
    next
      case False
      with Cons.prems ns have rest: "isolated False cs" by simp
      from Cons.IH [OF rest] have all: "\<forall>tok\<in>set (split_sep 32 cs). ?K tok"
        and hd: "set (hd (split_sep 32 cs)) \<inter> PUNCT_SET = {}"
        by auto
      have first: "split_sep 32 (c # cs) = (c # hd (split_sep 32 cs)) # tl (split_sep 32 cs)"
        using ns by (rule split_sep_Cons)
      from all tl_sub have "\<forall>tok\<in>set (tl (split_sep 32 cs)). ?K tok"
        by blast
      with first False hd show ?thesis by auto
    qed
  qed
qed

lemma g2p_tokens_shape:
  "tok \<in> set (g2p_tokens nfc text) \<Longrightarrow>
   set tok \<inter> PUNCT_SET = {} \<or> (\<exists>c\<in>PUNCT_SET. tok = [c])"
  using split_isolated_tokens [OF space_punct_isolated, of "nfc text"]
  by (simp add: g2p_tokens_def)

lemma map_graphemes_all:
  assumes ins: "\<forall>c\<in>{679, 115, 107, 120, 103, 119, 98, 106, 626, 669, 331, 82, 638, 114, 105}. Q c"
    and w: "\<forall>c\<in>set (lower word). Q c"
  shows "\<forall>c\<in>set (map_graphemes lower word). Q c"
proof (cases "lower word = [121]")
  case True
  with ins show ?thesis by (simp add: map_graphemes_unfold)
next
  case False
  have "\<forall>c\<in>set (rules_before_r (lower word)). Q c"
    using ins w by (intro rules_before_r_all) simp_all
  then have "\<forall>c\<in>set (rule_r (rules_before_r (lower word))). Q c"
    using ins by (intro rule_r_all) simp_all
  with False show ?thesis by (simp add: map_graphemes_unfold)
qed

lemma add_stress_all:
  assumes s: "\<forall>c\<in>set s. Q c" and acc: "\<forall>c\<in>set VOWELS_ACCENTED. Q c"
    and r: "add_stress_if_needed s = Inr r"
  shows "\<forall>c\<in>set r. Q c"
proof (cases "(\<exists>v\<in>set VOWELS_ACCENTED. v \<in> set s) \<or> length (vowel_groups s) \<le> 1")
  case True
  then have "add_stress_if_needed s = Inr s"
    using add_stress_accented add_stress_few_groups by blast
  with r s show ?thesis by simp
next
  case False
  then have na: "\<not> (\<exists>v\<in>set VOWELS_ACCENTED. v \<in> set s)" and two: "2 \<le> length (vowel_groups s)"
    by auto
  from add_stress_default [OF na two] obtain j a where j: "s ! j \<in> set VOWELS"
    and a: "map_of ACCENT_VOWEL_MAP (s ! j) = Some a" and eq: "add_stress_if_needed s = Inr (s[j := a])"
    by blast
  from accent_map_defined [OF j] a have "a \<in> set VOWELS_ACCENTED"
    by (auto dest: set_zip_leftD)
  with acc have "Q a" by blast
  moreover from eq r have "r = s[j := a]" by simp
  ultimately show ?thesis
    using s set_update_subset_insert [of s j a] by blast
qed

lemma strip_accents_all:
  assumes "\<forall>c\<in>set s. Q c" "\<forall>c\<in>set VOWELS. Q c"
  shows "\<forall>c\<in>set (strip_accents s). Q c"
  using assms(1)
proof (induction s)
  case Nil
  then show ?case by (simp add: strip_accents_def)
next
  case (Cons c s)
  have "\<forall>x\<in>set (strip_accents [c]). Q x"
    using Cons.prems assms(2) by (simp add: strip_accents_char VOWELS_def)
  with Cons show ?case
    by (subst strip_accents_Cons) auto
qed

lemma finalizer_all:
  assumes s: "\<forall>c\<in>set s. Q c" and v: "\<forall>c\<in>set VOWELS. Q c" and m: "Q 712"
  shows "\<forall>c\<in>set (insert_stress_marker_and_clean s). Q c"
proof (cases "set s \<inter> set VOWELS_ACCENTED = {}")
  case True
  with s show ?thesis by (simp add: finalizer_accent_free)
next
  case False
  then have "\<exists>x\<in>set s. x \<in> set VOWELS_ACCENTED" by blast
  then obtain pre x post where dec: "s = pre @ x # post" and x: "x \<in> set VOWELS_ACCENTED"
    and pre: "\<forall>y\<in>set pre. y \<notin> set VOWELS_ACCENTED"
    by (auto simp: split_list_first_prop_iff)
  from pre have pre': "set pre \<inter> set VOWELS_ACCENTED = {}" by blast
  from x obtain b where b: "(x, b) \<in> set (zip VOWELS_ACCENTED VOWELS)"
    by (auto simp: VOWELS_ACCENTED_def VOWELS_def)
  then have bv: "b \<in> set VOWELS" by (auto dest: set_zip_rightD)
  from s dec have qpre: "\<forall>c\<in>set pre. Q c" and qpost: "\<forall>c\<in>set post. Q c" by auto
  have qb: "\<forall>c\<in>set (butlast pre). Q c"
    using qpre by (auto dest: in_set_butlastD)
  have ql: "pre \<noteq> [] \<longrightarrow> Q (last pre)"
    using qpre by auto
  have qs: "\<forall>c\<in>set (strip_accents post). Q c"
    using qpost v by (rule strip_accents_all)
  show ?thesis
    unfolding dec finalizer_first_accent [OF pre' b]
    using qpre qb ql qs m v bv by auto
qed

lemma apply_glides_safe: "apply_glides p = p"
  by (simp add: apply_glides_def GLIDE_MODE_def)

lemma g2p_loop_invariant_tokens:
  assumes step_punct: "\<And>tok. T tok \<Longrightarrow> tok \<noteq> [] \<Longrightarrow> set tok \<subseteq> PUNCT_SET \<Longrightarrow> Q tok"
    and step_word: "\<And>tok p2. T tok \<Longrightarrow> tok \<noteq> [] \<Longrightarrow> \<not> set tok \<subseteq> PUNCT_SET \<Longrightarrow>
        add_stress_if_needed (map_graphemes lower tok) = Inr p2 \<Longrightarrow>
        Q (insert_stress_marker_and_clean (apply_glides p2))"
  shows "\<forall>tok\<in>set toks. T tok \<Longrightarrow> \<forall>p\<in>set out. Q p \<Longrightarrow>
    \<exists>out'. g2p_loop lower toks out = Inr out' \<and> (\<forall>p\<in>set out'. Q p)"
proof (induction toks arbitrary: out)
  case Nil
  then show ?case by simp
next
  case (Cons tok toks)
  from Cons.prems have T: "T tok" and Ts: "\<forall>t\<in>set toks. T t" by simp_all
  show ?case
  proof (cases "tok = []")
    case True
    with Cons.IH [OF Ts Cons.prems(2)] show ?thesis by simp
  next
    case ne: False
    show ?thesis
    proof (cases "set tok \<subseteq> PUNCT_SET")
      case True
      with ne T Cons.prems(2) step_punct have "\<forall>p\<in>set (out @ [tok]). Q p" by auto
      from Cons.IH [OF Ts this] ne True show ?thesis by simp
    next
      case False
      from g2p_loop_Cons_word [OF ne False, of lower toks out]
      obtain p2 where p2: "add_stress_if_needed (map_graphemes lower tok) = Inr p2"
        and eq: "g2p_loop lower (tok # toks) out =
          g2p_loop lower toks (out @ [insert_stress_marker_and_clean (apply_glides p2)])"
        by blast
      from step_word [OF T ne False p2] Cons.prems(2)
      have "\<forall>p\<in>set (out @ [insert_stress_marker_and_clean (apply_glides p2)]). Q p"
        by auto
      from Cons.IH [OF Ts this] eq show ?thesis by simp
    qed
  qed
qed

lemma join_isolated:
  "\<forall>p\<in>set out. set p \<inter> PUNCT_SET = {} \<or> (\<exists>c\<in>PUNCT_SET. p = [c]) \<Longrightarrow>
   isolated True (join [32] out)"
proof (induction "[32 :: nat]" out rule: join.induct)
  case 1
  then show ?case by simp
next
  case (2 x)
  then show ?case by (auto simp: isolated_free)
next
  case (3 x y ys)
  from "3.prems" have x: "isolated True x"
    by (auto simp: isolated_free)
  from "3.prems" have "isolated True (join [32] (y # ys))"
    by (intro "3.hyps") simp
  then have "isolated True (32 # join [32] (y # ys))"
    using space_not_punct by simp
  with x have "isolated True (x @ 32 # join [32] (y # ys))"
    using isolated_append [of True x "32 # join [32] (y # ys)"] by simp
  then show ?case by simp
qed

lemma punct_not_lower_letter: "c \<in> PUNCT_SET \<Longrightarrow> \<not> (97 \<le> c \<and> c \<le> 122)"
  by (auto simp: PUNCT_SET_def PUNCT_CHARS_def)

lemma lower_ascii_keeps_punct_free:
  assumes "set w \<inter> PUNCT_SET = {}"
  shows "set (lower_ascii w) \<inter> PUNCT_SET = {}"
proof -
  define f where "f = (\<lambda>c :: nat. if 65 \<le> c \<and> c \<le> 90 then c + 32 else c)"
  have "f c \<notin> PUNCT_SET" if "c \<in> set w" for c
  proof (cases "65 \<le> c \<and> c \<le> 90")
    case True
    then have "97 \<le> c + 32 \<and> c + 32 \<le> 122" by simp
    with punct_not_lower_letter [of "c + 32"] True show ?thesis by (auto simp: f_def)
  next
    case False
    with that assms show ?thesis by (auto simp: f_def)
  qed
  then have "set (map f w) \<inter> PUNCT_SET = {}" by auto
  then show ?thesis
    by (simp add: lower_ascii_def f_def)
qed

lemma g2p_isolated:
  assumes lower: "\<forall>w. set w \<inter> PUNCT_SET = {} \<longrightarrow> set (lower w) \<inter> PUNCT_SET = {}"
  shows "\<exists>r. g2p nfc lower text = Inr r \<and> isolated True r \<and> r \<noteq> [] \<and>
     hd r \<notin> PUNCT_SET \<and> last r \<notin> PUNCT_SET"
proof -
  let ?K = "\<lambda>tok. set tok \<inter> PUNCT_SET = {} \<or> (\<exists>c\<in>PUNCT_SET. tok = [c])"
  have slash: "47 \<notin> PUNCT_SET" by (simp add: PUNCT_SET_def PUNCT_CHARS_def)
  have iso0: "isolated True [47, 47]" using slash by simp
  show ?thesis
  proof (cases "text = []")
    case True
    with iso0 slash show ?thesis by (simp add: g2p_def)
  next
    case False
    have toks: "\<forall>tok\<in>set (g2p_tokens nfc text). ?K tok"
      using g2p_tokens_shape by blast
    have word: "?K (insert_stress_marker_and_clean (apply_glides p2))"
      if K: "?K tok" and np: "\<not> set tok \<subseteq> PUNCT_SET"
        and p2: "add_stress_if_needed (map_graphemes lower tok) = Inr p2" for tok p2
    proof -
      from K np have "set tok \<inter> PUNCT_SET = {}" by auto
      with lower have "\<forall>c\<in>set (lower tok). c \<notin> PUNCT_SET" by blast
      then have "\<forall>c\<in>set (map_graphemes lower tok). c \<notin> PUNCT_SET"
        by (intro map_graphemes_all) (simp_all add: PUNCT_SET_def PUNCT_CHARS_def)
      then have "\<forall>c\<in>set p2. c \<notin> PUNCT_SET"
        using _ p2 by (rule add_stress_all) (simp add: PUNCT_SET_def PUNCT_CHARS_def VOWELS_ACCENTED_def)
      then have "\<forall>c\<in>set (insert_stress_marker_and_clean p2). c \<notin> PUNCT_SET"
        by (rule finalizer_all) (simp_all add: PUNCT_SET_def PUNCT_CHARS_def VOWELS_def)
      then show ?thesis
        by (auto simp: apply_glides_safe)
    qed
    have "\<forall>p\<in>set ([] :: ustring list). ?K p" by simp
    with toks obtain out where out: "g2p_loop lower (g2p_tokens nfc text) [] = Inr out"
      and K: "\<forall>p\<in>set out. ?K p"
      using g2p_loop_invariant_tokens [where T = ?K and Q = ?K and lower = lower
          and toks = "g2p_tokens nfc text" and out = "[]"] word
      by blast
    let ?res = "strip_ws (join [32] out)"
    from K have "isolated True (join [32] out)"
      by (rule join_isolated)
    then have res: "isolated True ?res"
      by (rule isolated_strip_ws)
    have "isolated True (?res @ [32, 47])"
      using res slash space_not_punct by (intro isolated_append) simp_all
    then have "isolated True ([47, 32] @ ?res @ [32, 47])"
      using slash space_not_punct by simp
    define r where "r = (if ?res \<noteq> [] then [47, 32] @ ?res @ [32, 47] else [47, 47])"
    then have iso: "isolated True r"
      using \<open>isolated True (?res @ [32, 47])\<close> by (simp add: slash space_not_punct)
    have ends: "hd r = 47" "last r = 47" "r \<noteq> []"
      by (simp_all add: r_def)
    have "g2p nfc lower text = Inr r"
      using False out by (simp add: g2p_def Let_def r_def)
    with iso ends slash show ?thesis
      by simp
  qed
qed

text \<open>
  Claim C9.  \<open>str.lower\<close> never produces one of the punctuation characters from text that
  has none, and the space is not alphabetic; these two facts about the Python runtime are
  the hypotheses on the parameters \<open>lower\<close> and \<open>isalpha\<close>.  Then, for every input text
  and whatever NFC does, \<open>g2p\<close> returns a string in which every character of the
  punctuation set is neither first nor last and has a space immediately before it and a
  space immediately after it; so no punctuation character is adjacent to an alphabetic
  character.
\<close>

theorem punctuation_never_touches_letter:
  assumes lower: "\<forall>w. set w \<inter> PUNCT_SET = {} \<longrightarrow> set (lower w) \<inter> PUNCT_SET = {}"
    and alpha: "\<not> isalpha 32"
  shows "\<exists>r. g2p nfc lower text = Inr r \<and>
     (\<forall>i<length r. r ! i \<in> PUNCT_SET \<longrightarrow>
        0 < i \<and> i + 1 < length r \<and> r ! (i - 1) = 32 \<and> r ! (i + 1) = 32 \<and>
        \<not> isalpha (r ! (i - 1)) \<and> \<not> isalpha (r ! (i + 1)))"
proof -
  from g2p_isolated [OF lower] obtain r where r: "g2p nfc lower text = Inr r"
    and iso: "isolated True r" and ne: "r \<noteq> []"
    and hd: "hd r \<notin> PUNCT_SET" and last: "last r \<notin> PUNCT_SET"
    by blast
  have "0 < i \<and> i + 1 < length r \<and> r ! (i - 1) = 32 \<and> r ! (i + 1) = 32"
    if i: "i < length r" and p: "r ! i \<in> PUNCT_SET" for i
  proof -
    have i0: "i \<noteq> 0"
    proof
      assume "i = 0"
      with hd ne p show False by (simp add: hd_conv_nth)
    qed
    from last ne p have "i \<noteq> length r - 1"
      by (auto simp: last_conv_nth)
    with i have il: "i + 1 < length r" by arith
    from isolated_nth [OF iso i p] i0 il show ?thesis by simp
  qed
  then have "\<forall>i<length r. r ! i \<in> PUNCT_SET \<longrightarrow>
        0 < i \<and> i + 1 < length r \<and> r ! (i - 1) = 32 \<and> r ! (i + 1) = 32 \<and>
        \<not> isalpha (r ! (i - 1)) \<and> \<not> isalpha (r ! (i + 1))"
    using alpha by simp
  with r show ?thesis by blast
qed

text \<open>
  ASCII lowering and the ASCII letters satisfy the hypotheses; the text \<open>a,b\<close> becomes
  slash, space, \<open>a\<close>, space, comma, space, \<open>b\<close>, space, slash.
\<close>

theorem punctuation_never_touches_letter_witness:
  "g2p nfc_ascii lower_ascii [97, 44, 98] = Inr [47, 32, 97, 32, 44, 32, 98, 32, 47] \<and>
   (\<exists>r. g2p nfc_ascii lower_ascii [97, 44, 98] = Inr r \<and>
     (\<forall>i<length r. r ! i \<in> PUNCT_SET \<longrightarrow>
        0 < i \<and> i + 1 < length r \<and> r ! (i - 1) = 32 \<and> r ! (i + 1) = 32 \<and>
        \<not> isalpha_ascii (r ! (i - 1)) \<and> \<not> isalpha_ascii (r ! (i + 1))))"
proof -
  have lower: "\<forall>w. set w \<inter> PUNCT_SET = {} \<longrightarrow> set (lower_ascii w) \<inter> PUNCT_SET = {}"
    using lower_ascii_keeps_punct_free by blast
  have alpha: "\<not> isalpha_ascii 32"
    by (simp add: isalpha_ascii_def)
  have ev: "g2p nfc_ascii lower_ascii [97, 44, 98] = Inr [47, 32, 97, 32, 44, 32, 98, 32, 47]"
    by (simp add: g2p_eval_defs)
  from punctuation_never_touches_letter [of lower_ascii isalpha_ascii nfc_ascii "[97, 44, 98]",
      OF lower alpha] ev
  show ?thesis by blast
qed


end
